theory Spec2Isabelle
  imports Main "HOL-Library.FSet" "HOL-Library.Char_ord" "HOL-Library.List_Lexorder"
    "HOL-Library.Multiset"
begin

section \<open>Python strings\<close>

text \<open>
  A Python \<open>str\<close> is modelled as a HOL \<open>string\<close>, so the model speaks about text whose
  code points are below 256. \<open>is_space\<close> is \<open>str.isspace\<close> on one character (also what
  \<open>\s\<close> matches in a \<open>str\<close> pattern), \<open>lower\<close> is \<open>str.lower\<close> and \<open>strip\<close> is
  \<open>str.strip\<close> without argument.
\<close>

definition is_space :: "char \<Rightarrow> bool" where
  "is_space c \<longleftrightarrow> c \<in> set [CHR 0x09, CHR 0x0A, CHR 0x0B, CHR 0x0C, CHR 0x0D,
     CHR 0x1C, CHR 0x1D, CHR 0x1E, CHR 0x1F, CHR 0x20, CHR 0x85, CHR 0xA0]"

definition lower_char :: "char \<Rightarrow> char" where
  "lower_char c =
     (let n = (of_char c :: nat)
      in if (65 \<le> n \<and> n \<le> 90) \<or> (192 \<le> n \<and> n \<le> 222 \<and> n \<noteq> 215)
         then char_of (n + 32) else c)"

definition lower :: "string \<Rightarrow> string" where
  "lower s = map lower_char s"

definition strip :: "string \<Rightarrow> string" where
  "strip s = rev (dropWhile is_space (rev (dropWhile is_space s)))"

fun startswith :: "string \<Rightarrow> string \<Rightarrow> bool" where
  "startswith s [] = True"
| "startswith [] (p # ps) = False"
| "startswith (c # cs) (p # ps) = (c = p \<and> startswith cs ps)"

section \<open>Identifier and round normalizer\<close>

text \<open>
  A \<open>Path\<close> is the list of its components; \<open>Path.name\<close> is the last one, and the empty
  string for the empty path.
\<close>

type_synonym path = "string list"

definition path_name :: "path \<Rightarrow> string" where
  "path_name p = (if p = [] then [] else last p)"

definition round_patterns :: "(string \<times> string) list" where
  "round_patterns =
     [(''r1'', ''1''), (''round 1'', ''1''), (''round1'', ''1''),
      (''r2'', ''2''), (''round 2'', ''2''), (''round2'', ''2''),
      (''r3'', ''3''), (''round 3'', ''3''), (''round3'', ''3''),
      (''r4'', ''4''), (''round 4'', ''4''), (''round4'', ''4''),
      (''r5'', ''5''), (''round 5'', ''5''), (''round5'', ''5''),
      (''fy 16-17'', ''1''), (''fy 17-18'', ''2''), (''fy 18-19'', ''3'')]"

definition year_to_round :: "(string \<times> string) list" where
  "year_to_round =
     [(''2015'', ''1''), (''2016'', ''1''), (''2017'', ''1''),
      (''2018'', ''2''), (''2019'', ''3''), (''2022'', ''4'')]"

definition get_pdf_identifier :: "path \<Rightarrow> string \<Rightarrow> string \<Rightarrow> string" where
  "get_pdf_identifier pdf_path dist rnd = dist @ ''/'' @ rnd @ ''/'' @ path_name pdf_path"

definition normalize_round_name :: "string \<Rightarrow> string option" where
  "normalize_round_name folder_name = map_of round_patterns (strip (lower folder_name))"

text \<open>
  \<open>validate_round_year\<close>: an empty year or round needs no validation; a year of the table
  whose round is another one (and is not the empty string) is a mismatch. The warning it
  logs is not modelled.
\<close>

definition validate_round_year :: "string \<Rightarrow> string \<Rightarrow> bool" where
  "validate_round_year rnd year_str =
     (if year_str = [] \<or> rnd = [] then True
      else (case map_of year_to_round year_str of
              None \<Rightarrow> True
            | Some expected_round \<Rightarrow> \<not> (expected_round \<noteq> [] \<and> expected_round \<noteq> rnd)))"

section \<open>JSON values and the decoder \<open>json.loads\<close>\<close>

text \<open>
  The Python values that \<open>json.loads\<close> produces. A number is kept as its literal
  (\<open>NaN\<close>, \<open>Infinity\<close> and \<open>-Infinity\<close> included); the \<open>int\<close> or \<open>float\<close> it
  denotes is not computed. A dictionary is the list of its items in insertion order, with
  distinct keys.
\<close>

datatype json =
    JNull
  | JBool bool
  | JNum string
  | JStr string
  | JArr "json list"
  | JObj "(string \<times> json) list"

definition json_ws :: "char \<Rightarrow> bool" where
  "json_ws c \<longleftrightarrow> c \<in> set [CHR 0x20, CHR 0x09, CHR 0x0A, CHR 0x0D]"

definition skip_ws :: "string \<Rightarrow> string" where
  "skip_ws cs = dropWhile json_ws cs"

fun dict_set :: "string \<Rightarrow> 'v \<Rightarrow> (string \<times> 'v) list \<Rightarrow> (string \<times> 'v) list" where
  "dict_set k v [] = [(k, v)]"
| "dict_set k v ((k', v') # kvs) =
     (if k = k' then (k, v) # kvs else (k', v') # dict_set k v kvs)"

definition is_hex :: "char \<Rightarrow> bool" where
  "is_hex c \<longleftrightarrow>
     (let n = (of_char c :: nat)
      in (48 \<le> n \<and> n \<le> 57) \<or> (65 \<le> n \<and> n \<le> 70) \<or> (97 \<le> n \<and> n \<le> 102))"

definition hex_val :: "char \<Rightarrow> nat" where
  "hex_val c =
     (let n = (of_char c :: nat)
      in if n \<le> 57 then n - 48 else if n \<le> 70 then n - 55 else n - 87)"

definition decode_uXXXX :: "string \<Rightarrow> nat option" where
  "decode_uXXXX cs =
     (if 4 \<le> length cs \<and> list_all is_hex (take 4 cs)
      then Some (foldl (\<lambda>a c. 16 * a + hex_val c) 0 (take 4 cs)) else None)"

definition chr_latin1 :: "nat \<Rightarrow> char" where
  "chr_latin1 n = (if n < 256 then char_of n else CHR ''?'')"

definition BACKSLASH :: "(char \<times> char) list" where
  "BACKSLASH = [(CHR 0x22, CHR 0x22), (CHR 0x5C, CHR 0x5C), (CHR ''/'', CHR ''/''),
     (CHR ''b'', CHR 0x08), (CHR ''f'', CHR 0x0C), (CHR ''n'', CHR 0x0A),
     (CHR ''r'', CHR 0x0D), (CHR ''t'', CHR 0x09)]"

definition scan_escape :: "string \<Rightarrow> (char \<times> string) option" where
  "scan_escape cs =
     (case cs of
        [] \<Rightarrow> None
      | e # cs1 \<Rightarrow>
          if e \<noteq> CHR ''u'' then
            (case map_of BACKSLASH e of None \<Rightarrow> None | Some ch \<Rightarrow> Some (ch, cs1))
          else
            (case decode_uXXXX cs1 of
               None \<Rightarrow> None
             | Some uni \<Rightarrow>
                 (let cs2 = drop 4 cs1
                  in if 0xD800 \<le> uni \<and> uni \<le> 0xDBFF \<and> take 2 cs2 = [CHR 0x5C, CHR ''u''] then
                       (case decode_uXXXX (drop 2 cs2) of
                          None \<Rightarrow> None
                        | Some uni2 \<Rightarrow>
                            if 0xDC00 \<le> uni2 \<and> uni2 \<le> 0xDFFF
                            then Some (CHR ''?'', drop 6 cs2)
                            else Some (chr_latin1 uni, cs2))
                     else Some (chr_latin1 uni, cs2))))"

lemma scan_escape_length: "scan_escape cs = Some (ch, rest) \<Longrightarrow> length rest < length cs"
  by (auto simp: scan_escape_def Let_def split: list.splits option.splits if_splits)

function scanstring :: "string \<Rightarrow> string \<Rightarrow> (string \<times> string) option" where
  "scanstring acc [] = None"
| "scanstring acc (c # cs) =
     (if c = CHR 0x22 then Some (acc, cs)
      else if c = CHR 0x5C then
        (case scan_escape cs of
           None \<Rightarrow> None
         | Some (ch, rest) \<Rightarrow> scanstring (acc @ [ch]) rest)
      else if (of_char c :: nat) < 0x20 then None
      else scanstring (acc @ [c]) cs)"
  by pat_completeness auto
termination
  by (relation "measure (\<lambda>(acc, cs). length cs)") (auto dest: scan_escape_length)

lemma scanstring_length: "scanstring acc cs = Some (s, rest) \<Longrightarrow> length rest < length cs"
proof (induction acc cs rule: scanstring.induct)
  case (1 acc)
  then show ?case by simp
next
  case (2 acc c cs)
  show ?case
  proof (cases "c = CHR 0x22")
    case True
    with 2 show ?thesis by simp
  next
    case False
    note nq = this
    show ?thesis
    proof (cases "c = CHR 0x5C")
      case True
      with 2 nq obtain ch r where e: "scan_escape cs = Some (ch, r)"
        and s: "scanstring (acc @ [ch]) r = Some (s, rest)"
        by (auto split: option.splits)
      from 2(1) [OF nq True e refl] s have "length rest < length r" by simp
      with scan_escape_length [OF e] show ?thesis by simp
    next
      case False
      with 2 nq show ?thesis by (auto split: if_splits)
    qed
  qed
qed

definition is_digit :: "char \<Rightarrow> bool" where
  "is_digit c \<longleftrightarrow> (48::nat) \<le> of_char c \<and> (of_char c :: nat) \<le> 57"

definition match_int :: "string \<Rightarrow> (string \<times> string) option" where
  "match_int cs =
     (let (sgn, cs1) = (if take 1 cs = ''-'' then (''-'', drop 1 cs) else ([], cs))
      in case cs1 of
           [] \<Rightarrow> None
         | d # ds \<Rightarrow>
             if d = CHR ''0'' then Some (sgn @ [d], ds)
             else if is_digit d then Some (sgn @ d # takeWhile is_digit ds, dropWhile is_digit ds)
             else None)"

definition match_frac :: "string \<Rightarrow> string \<times> string" where
  "match_frac cs =
     (case cs of
        p # d # ds \<Rightarrow>
          if p = CHR ''.'' \<and> is_digit d
          then (p # d # takeWhile is_digit ds, dropWhile is_digit ds) else ([], cs)
      | _ \<Rightarrow> ([], cs))"

definition match_exp :: "string \<Rightarrow> string \<times> string" where
  "match_exp cs =
     (case cs of
        [] \<Rightarrow> ([], cs)
      | e # cs1 \<Rightarrow>
          if e = CHR ''e'' \<or> e = CHR ''E'' then
            (let (sgn, cs2) = (if take 1 cs1 = ''-'' \<or> take 1 cs1 = ''+''
                               then (take 1 cs1, drop 1 cs1) else ([], cs1))
             in if cs2 \<noteq> [] \<and> is_digit (hd cs2)
                then (e # sgn @ takeWhile is_digit cs2, dropWhile is_digit cs2)
                else ([], cs))
          else ([], cs))"

definition match_number :: "string \<Rightarrow> (string \<times> string) option" where
  "match_number cs =
     (case match_int cs of
        None \<Rightarrow> None
      | Some (i, cs1) \<Rightarrow>
          (let (f, cs2) = match_frac cs1; (e, cs3) = match_exp cs2
           in Some (i @ f @ e, cs3)))"

lemma length_skip_ws: "length (skip_ws cs) \<le> length cs"
  by (simp add: skip_ws_def length_dropWhile_le)

lemma skip_ws_Cons_length: "skip_ws cs = d # ds \<Longrightarrow> length ds < length cs"
  using length_skip_ws [of cs] by simp

function (sequential) scan_once :: "string \<Rightarrow> (json \<times> string) option"
  and JSONArray :: "json list \<Rightarrow> string \<Rightarrow> (json \<times> string) option"
  and JSONObject :: "(string \<times> json) list \<Rightarrow> string \<Rightarrow> (json \<times> string) option"
where
  "scan_once [] = None"
| "scan_once (c # cs) =
     (if c = CHR 0x22 then
        (case scanstring [] cs of None \<Rightarrow> None | Some (s, rest) \<Rightarrow> Some (JStr s, rest))
      else if c = CHR ''{'' then
        (case skip_ws cs of
           [] \<Rightarrow> None
         | d # ds \<Rightarrow>
             if d = CHR ''}'' then Some (JObj [], ds)
             else if d = CHR 0x22 then JSONObject [] ds
             else None)
      else if c = CHR ''['' then
        (case skip_ws cs of
           [] \<Rightarrow> None
         | d # ds \<Rightarrow> if d = CHR '']'' then Some (JArr [], ds) else JSONArray [] (d # ds))
      else if take 4 (c # cs) = ''null'' then Some (JNull, drop 3 cs)
      else if take 4 (c # cs) = ''true'' then Some (JBool True, drop 3 cs)
      else if take 5 (c # cs) = ''false'' then Some (JBool False, drop 4 cs)
      else (case match_number (c # cs) of
              Some (lit, rest) \<Rightarrow> Some (JNum lit, rest)
            | None \<Rightarrow>
                if take 3 (c # cs) = ''NaN'' then Some (JNum ''NaN'', drop 2 cs)
                else if take 8 (c # cs) = ''Infinity'' then Some (JNum ''Infinity'', drop 7 cs)
                else if take 9 (c # cs) = ''-Infinity'' then Some (JNum ''-Infinity'', drop 8 cs)
                else None))"
| "JSONArray vals cs =
     (case scan_once cs of
        None \<Rightarrow> None
      | Some (v, rest) \<Rightarrow>
          if length rest < length cs then
            (case skip_ws rest of
               [] \<Rightarrow> None
             | d # ds \<Rightarrow>
                 if d = CHR '']'' then Some (JArr (vals @ [v]), ds)
                 else if d = CHR '','' then JSONArray (vals @ [v]) (skip_ws ds)
                 else None)
          else None)"
| "JSONObject pairs cs =
     (case scanstring [] cs of
        None \<Rightarrow> None
      | Some (key, rest) \<Rightarrow>
          (case skip_ws rest of
             [] \<Rightarrow> None
           | d # ds \<Rightarrow>
               if d = CHR '':'' then
                 (case scan_once (skip_ws ds) of
                    None \<Rightarrow> None
                  | Some (v, rest1) \<Rightarrow>
                      if length rest1 < length cs then
                        (case skip_ws rest1 of
                           [] \<Rightarrow> None
                         | d1 # ds1 \<Rightarrow>
                             if d1 = CHR ''}'' then Some (JObj (dict_set key v pairs), ds1)
                             else if d1 = CHR '','' then
                               (case skip_ws ds1 of
                                  [] \<Rightarrow> None
                                | d2 # ds2 \<Rightarrow>
                                    if d2 = CHR 0x22 then JSONObject (dict_set key v pairs) ds2
                                    else None)
                             else None)
                      else None)
               else None))"
  by pat_completeness auto


termination
  apply (relation "measure (\<lambda>x. case x of Inl cs \<Rightarrow> 2 * length cs
       | Inr (Inl (vs, cs)) \<Rightarrow> 2 * length cs + 1
       | Inr (Inr (ps, cs)) \<Rightarrow> 2 * length cs + 1)")
  apply (auto dest: skip_ws_Cons_length)
  subgoal for cs a b x22
    using skip_ws_Cons_length [of b "CHR '',''" x22] length_skip_ws [of x22] by linarith
  subgoal for cs a b x22
    using scanstring_length [of "[]" cs a b] skip_ws_Cons_length [of b "CHR '':''" x22]
      length_skip_ws [of x22] by linarith
  subgoal for cs a b x22 aa ba x22a x22b
    using skip_ws_Cons_length [of ba "CHR '',''" x22a] skip_ws_Cons_length [of x22a "CHR 0x22" x22b] by linarith
  done

definition json_loads :: "string \<Rightarrow> json option" where
  "json_loads s =
     (case scan_once (skip_ws s) of
        None \<Rightarrow> None
      | Some (v, rest) \<Rightarrow> if skip_ws rest = [] then Some v else None)"


section \<open>Analyzer state\<close>

text \<open>
  The statistics counters of the analyzer.
\<close>

record stats =
  districts_processed :: nat
  pdfs_processed :: nat
  pages_analyzed :: nat
  software_records_extracted :: nat
  api_calls_made :: nat
  errors_encountered :: nat

definition stats0 :: stats where
  "stats0 = \<lparr>districts_processed = 0, pdfs_processed = 0, pages_analyzed = 0,
     software_records_extracted = 0, api_calls_made = 0, errors_encountered = 0\<rparr>"

text \<open>
  The persisted tracker document: the list of identifiers (written from a set, so its
  order carries nothing) and their count. The timestamp \<open>last_updated\<close> is not modelled.
\<close>

record tracker_doc =
  doc_processed_pdfs :: "string fset"
  total_processed :: nat

text \<open>
  The effects on the outside world are kept as a trace, oldest first: a page rendered by
  \<open>extract_page_content\<close>, a request posted to the model service (file name, page index,
  attempt index), a call of \<open>time.sleep\<close> with its duration in seconds, and a write of the
  tracker document.
\<close>

datatype event =
    Extract path nat
  | ApiCall string nat nat
  | Sleep rat
  | TrackerSave

section \<open>Response recovery parser\<close>

text \<open>
  \<open>re.sub(r',\s*([}\]])', r'\1', content)\<close>: a comma followed by white space and a
  closing bracket is replaced by the bracket; the scan goes on behind the bracket.
\<close>

function remove_trailing_commas :: "string \<Rightarrow> string" where
  "remove_trailing_commas [] = []"
| "remove_trailing_commas (c # cs) =
     (if c = CHR '','' then
        (case dropWhile is_space cs of
           [] \<Rightarrow> c # remove_trailing_commas cs
         | b # rest \<Rightarrow>
             if b = CHR ''}'' \<or> b = CHR '']'' then b # remove_trailing_commas rest
             else c # remove_trailing_commas cs)
      else c # remove_trailing_commas cs)"
  by pat_completeness auto
termination
proof (relation "measure length", goal_cases)
  case (3 c cs b rest)
  have "length (dropWhile is_space cs) \<le> length cs"
    by (rule length_dropWhile_le)
  with 3 show ?case by simp
qed simp_all

text \<open>
  \<open>content.count('\\"')\<close>: the occurrences of a backslash followed by a double quote.
\<close>

fun count_escaped_quotes :: "string \<Rightarrow> nat" where
  "count_escaped_quotes (c # d # cs) =
     (if c = CHR 0x5C \<and> d = CHR 0x22 then Suc (count_escaped_quotes cs)
      else count_escaped_quotes (d # cs))"
| "count_escaped_quotes cs = 0"

text \<open>
  \<open>find_last_complete_json\<close>: the longest non-empty prefix that \<open>json.loads\<close> accepts.
  The loop runs \<open>i\<close> from the length of the content down to 1.
\<close>

fun find_last_complete_json_from :: "nat \<Rightarrow> string \<Rightarrow> string option" where
  "find_last_complete_json_from 0 content = None"
| "find_last_complete_json_from (Suc i) content =
     (case json_loads (take (Suc i) content) of
        Some v \<Rightarrow> Some (take (Suc i) content)
      | None \<Rightarrow> find_last_complete_json_from i content)"

definition find_last_complete_json :: "string \<Rightarrow> string option" where
  "find_last_complete_json content = find_last_complete_json_from (length content) content"

text \<open>
  \<open>re.search(r'\[.*\]', content, re.DOTALL)\<close>: from the first opening bracket to the
  last closing bracket behind it.
\<close>

definition search_array :: "string \<Rightarrow> string option" where
  "search_array content =
     (case dropWhile (\<lambda>c. c \<noteq> CHR ''['') content of
        [] \<Rightarrow> None
      | b # rest \<Rightarrow>
          if CHR '']'' \<in> set rest
          then Some (b # rev (dropWhile (\<lambda>c. c \<noteq> CHR '']'') (rev rest)))
          else None)"

text \<open>
  \<open>re.findall(r'\{[^{}]*(?:\{[^{}]*\}[^{}]*)*\}', content, re.DOTALL)\<close>: an
  opening brace, then text without braces in which groups \<open>{...}\<close> without braces of
  their own may stand, then the closing brace. \<open>match_object_rest\<close> is called behind the
  first run of text without braces, with the text matched so far; it gives the match and
  what follows it. A start that does not match is given up for the next character; a match
  is followed by the search behind it.
\<close>

definition not_brace :: "char \<Rightarrow> bool" where
  "not_brace c \<longleftrightarrow> c \<noteq> CHR ''{'' \<and> c \<noteq> CHR ''}''"

function match_object_rest :: "string \<Rightarrow> string \<Rightarrow> (string \<times> string) option" where
  "match_object_rest acc [] = None"
| "match_object_rest acc (c # cs) =
     (if c = CHR ''}'' then Some (acc @ [c], cs)
      else if c = CHR ''{'' then
        (case dropWhile not_brace cs of
           [] \<Rightarrow> None
         | d # ds \<Rightarrow>
             if d = CHR ''}'' then
               match_object_rest
                 (acc @ c # takeWhile not_brace cs @ d # takeWhile not_brace ds)
                 (dropWhile not_brace ds)
             else None)
      else None)"
  by pat_completeness auto
termination
proof (relation "measure (\<lambda>(acc, cs). length cs)", goal_cases)
  case (2 acc c cs d ds)
  have "length (dropWhile not_brace ds) \<le> length ds"
    by (rule length_dropWhile_le)
  moreover have "length (dropWhile not_brace cs) \<le> length cs"
    by (rule length_dropWhile_le)
  ultimately show ?case using 2 by simp
qed simp

lemma match_object_rest_length:
  "match_object_rest acc cs = Some (m, rest) \<Longrightarrow> length rest < length cs"
proof (induction acc cs rule: match_object_rest.induct)
  case (1 acc)
  then show ?case by simp
next
  case (2 acc c cs)
  show ?case
  proof (cases "c = CHR ''}''")
    case True
    with 2 show ?thesis by simp
  next
    case False
    with 2(2) obtain d ds where c: "c = CHR ''{''" and dw: "dropWhile not_brace cs = d # ds"
      and d: "d = CHR ''}''"
      and r: "match_object_rest
                (acc @ c # takeWhile not_brace cs @ d # takeWhile not_brace ds)
                (dropWhile not_brace ds) = Some (m, rest)"
      by (auto split: if_splits list.splits)
    from 2(1) [OF False c dw d r] have "length rest < length (dropWhile not_brace ds)" .
    moreover have "length (dropWhile not_brace ds) \<le> length ds"
      by (rule length_dropWhile_le)
    moreover have "length (dropWhile not_brace cs) \<le> length cs"
      by (rule length_dropWhile_le)
    ultimately show ?thesis using dw by simp
  qed
qed

lemma match_object_length:
  "match_object_rest acc (dropWhile not_brace cs) = Some (m, rest) \<Longrightarrow> length rest < length cs"
  using match_object_rest_length [of acc "dropWhile not_brace cs" m rest]
    length_dropWhile_le [of not_brace cs]
  by simp

function findall_objects :: "string \<Rightarrow> string list" where
  "findall_objects [] = []"
| "findall_objects (c # cs) =
     (if c = CHR ''{'' then
        (case match_object_rest (c # takeWhile not_brace cs) (dropWhile not_brace cs) of
           Some (m, rest) \<Rightarrow> m # findall_objects rest
         | None \<Rightarrow> findall_objects cs)
      else findall_objects cs)"
  by pat_completeness auto
termination
  by (relation "measure length") (auto dest: match_object_length)

text \<open>
  Truth of a decoded value in a condition. A number is false when it is zero; a literal with
  a fraction or an exponent counts as zero when all digits of its mantissa are \<open>0\<close> (a
  float that underflows to zero is not modelled).
\<close>

definition num_is_zero :: "string \<Rightarrow> bool" where
  "num_is_zero lit \<longleftrightarrow>
     lit \<notin> set [''NaN'', ''Infinity'', ''-Infinity''] \<and>
     list_all (\<lambda>c. c \<in> set ''-.0'') (takeWhile (\<lambda>c. c \<noteq> CHR ''e'' \<and> c \<noteq> CHR ''E'') lit)"

fun truthy :: "json \<Rightarrow> bool" where
  "truthy JNull = False"
| "truthy (JBool b) = b"
| "truthy (JNum lit) = (\<not> num_is_zero lit)"
| "truthy (JStr s) = (s \<noteq> [])"
| "truthy (JArr vs) = (vs \<noteq> [])"
| "truthy (JObj kvs) = (kvs \<noteq> [])"

text \<open>\<open>dict.get\<close> with a default, on a decoded object.\<close>

definition dict_get :: "(string \<times> json) list \<Rightarrow> string \<Rightarrow> json \<Rightarrow> json" where
  "dict_get kvs k dflt = (case map_of kvs k of None \<Rightarrow> dflt | Some v \<Rightarrow> v)"

text \<open>
  \<open>extract_json_objects\<close>: every match that decodes to a dictionary with a true
  \<open>software\<close> entry is kept.
\<close>

definition keep_object :: "string \<Rightarrow> json list" where
  "keep_object m =
     (case json_loads m of
        Some (JObj kvs) \<Rightarrow> (if truthy (dict_get kvs ''software'' JNull) then [JObj kvs] else [])
      | _ \<Rightarrow> [])"

definition extract_json_objects :: "string \<Rightarrow> json list" where
  "extract_json_objects content = concat (map keep_object (findall_objects content))"

text \<open>
  The exceptions of the model. \<open>OtherException\<close> stands for any exception of class
  \<open>Exception\<close> that is neither of the two named ones; \<open>KeyboardInterrupt\<close> is not of class
  \<open>Exception\<close>, so no handler of the analyzer catches it.
\<close>

datatype exn = JSONDecodeError | RequestException | OtherException | KeyboardInterrupt

text \<open>
  The four salvage strategies of \<open>parse_json_with_recovery\<close>, each giving the value it
  returns or \<open>None\<close> when it leaves the work to the next one.
\<close>

definition strategy1 :: "string \<Rightarrow> json option" where
  "strategy1 content = json_loads content"

definition strategy2 :: "string \<Rightarrow> json option" where
  "strategy2 content =
     (let fixed_content = remove_trailing_commas content;
          quote_count = int (count_list fixed_content (CHR 0x22))
                        - int (count_escaped_quotes fixed_content)
      in if CHR 0x22 \<in> set fixed_content \<and> quote_count mod 2 \<noteq> 0 then
           (case find_last_complete_json fixed_content of
              Some last_complete \<Rightarrow> json_loads last_complete
            | None \<Rightarrow> json_loads fixed_content)
         else json_loads fixed_content)"

definition strategy3 :: "string \<Rightarrow> json option" where
  "strategy3 content =
     (case search_array content of
        Some array_content \<Rightarrow> json_loads array_content
      | None \<Rightarrow> None)"

definition strategy4 :: "string \<Rightarrow> json option" where
  "strategy4 content =
     (let objects = extract_json_objects content
      in if objects \<noteq> [] then Some (JArr objects) else None)"

definition parse_json_with_recovery :: "string \<Rightarrow> exn + json" where
  "parse_json_with_recovery content =
     (case strategy1 content of
        Some v \<Rightarrow> Inr v
      | None \<Rightarrow>
     (case strategy2 content of
        Some v \<Rightarrow> Inr v
      | None \<Rightarrow>
     (case strategy3 content of
        Some v \<Rightarrow> Inr v
      | None \<Rightarrow>
     (case strategy4 content of
        Some v \<Rightarrow> Inr v
      | None \<Rightarrow> Inl JSONDecodeError))))"

section \<open>Software records\<close>

text \<open>
  \<open>SoftwareRecord\<close>: the fields hold Python values, since nothing in the data class
  checks what is stored in them. The field \<open>round\<close> is called \<open>round'\<close> here.
\<close>

record SoftwareRecord =
  district :: json
  school_name :: json
  approx_level :: json
  software :: json
  vendor :: json
  use_type :: json
  host_type :: json
  num_school_lic :: json
  num_district_lic :: json
  cost_per_lic :: json
  cost_total :: json
  contract_start_month :: json
  contract_start_year :: json
  contract_length_years :: json
  install_month :: json
  install_year :: json
  quote_month :: json
  quote_year :: json
  misc_notes :: json
  round' :: json
  source_file :: json
  page_number :: json

section \<open>The outside world\<close>

text \<open>
  The arguments of one call of \<open>analyze_page_with_gpt\<close>; the prompt and the payload sent
  to the model service are built from them alone.
\<close>

record request =
  image_bytes :: string
  text_content :: string
  req_district :: string
  req_round_num :: string
  pdf_name :: string
  page_num :: nat

text \<open>
  What one \<open>requests.post\<close> with the steps up to \<open>content.strip()\<close> comes to: the text
  of the reply (before \<open>strip\<close>), an exception of class \<open>RequestException\<close> (transport
  or HTTP status), another exception of class \<open>Exception\<close> (a reply of unexpected shape),
  or the interrupt of the user.
\<close>

datatype api_outcome =
    Content string
  | RequestFailed
  | UnexpectedFailure
  | Interrupted

text \<open>
  The world outside the analyzer: \<open>api_post\<close> answers the request of a page at a given
  attempt (counted from 0), and \<open>builtin_str\<close> is Python's \<open>str\<close> on the values whose
  text the model does not compute (floats, lists and dictionaries).
\<close>

record env =
  api_post :: "request \<Rightarrow> nat \<Rightarrow> api_outcome"
  builtin_str :: "json \<Rightarrow> string"

text \<open>
  The directory tree. A file carries what the PDF library finds in it: \<open>None\<close> when it
  cannot be opened as a document, else its pages; a page is \<open>None\<close> when rendering it
  fails, else its image bytes and its text.
\<close>

type_synonym page = "(string \<times> string) option"

datatype entry =
    File string "page list option"
  | Dir string "entry list"

fun entry_name :: "entry \<Rightarrow> string" where
  "entry_name (File n c) = n"
| "entry_name (Dir n es) = n"

fun is_dir :: "entry \<Rightarrow> bool" where
  "is_dir (File n c) = False"
| "is_dir (Dir n es) = True"

fun iterdir :: "entry \<Rightarrow> entry list" where
  "iterdir (File n c) = []"
| "iterdir (Dir n es) = es"

text \<open>What \<open>fitz.open\<close> gives: the pages, or \<open>None\<close> when it raises.\<close>

fun fitz_open :: "entry \<Rightarrow> page list option" where
  "fitz_open (File n c) = c"
| "fitz_open (Dir n es) = None"

text \<open>A PDF found in the tree: its path and the entry itself.\<close>

type_synonym pdf_file = "path \<times> entry"

section \<open>Extraction client\<close>

function str_of_nat :: "nat \<Rightarrow> string" where
  "str_of_nat n =
     (if n < 10 then [char_of (48 + n)]
      else str_of_nat (n div 10) @ [char_of (48 + n mod 10)])"
  by pat_completeness auto
termination
  by (relation "measure id") auto

declare str_of_nat.simps [simp del]

text \<open>
  Python's \<open>str\<close> on a decoded value. An integer literal prints as itself (\<open>-0\<close> as
  \<open>0\<close>).
\<close>

definition int_literal :: "string \<Rightarrow> bool" where
  "int_literal lit \<longleftrightarrow> list_all (\<lambda>c. is_digit c \<or> c = CHR ''-'') lit"

definition py_str :: "env \<Rightarrow> json \<Rightarrow> string" where
  "py_str e v =
     (case v of
        JNull \<Rightarrow> ''None''
      | JBool b \<Rightarrow> (if b then ''True'' else ''False'')
      | JNum lit \<Rightarrow>
          (if int_literal lit then (if lit = ''-0'' then ''0'' else lit) else builtin_str e v)
      | JStr s \<Rightarrow> s
      | JArr vs \<Rightarrow> builtin_str e v
      | JObj kvs \<Rightarrow> builtin_str e v)"

text \<open>
  The conversion of one recovered item, in its two steps: the soft validation, which
  writes the mismatch note into the item when the contract year does not fit the round,
  and the construction of the record. An item that is no dictionary has no \<open>get\<close>, which
  raises \<open>AttributeError\<close>.
\<close>

definition note_mismatch :: "env \<Rightarrow> request \<Rightarrow> (string \<times> json) list \<Rightarrow> (string \<times> json) list" where
  "note_mismatch e req item =
     (let contract_year = py_str e (dict_get item ''contract_start_year'' (JStr []))
      in if contract_year \<noteq> [] \<and> \<not> validate_round_year (req_round_num req) contract_year
         then dict_set ''misc_notes''
                (JStr (strip (py_str e (dict_get item ''misc_notes'' (JStr []))
                              @ '' [Year-Round mismatch noted]''))) item
         else item)"

definition record_of_item :: "env \<Rightarrow> request \<Rightarrow> (string \<times> json) list \<Rightarrow> SoftwareRecord" where
  "record_of_item e req item =
     \<lparr>district = JStr (req_district req),
      school_name = dict_get item ''school_name'' (JStr []),
      approx_level = dict_get item ''approx_level'' (JStr []),
      software = dict_get item ''software'' (JStr []),
      vendor = dict_get item ''vendor'' (JStr []),
      use_type = dict_get item ''use_type'' (JStr []),
      host_type = dict_get item ''host_type'' (JStr []),
      num_school_lic = JStr (py_str e (dict_get item ''num_school_lic'' (JStr []))),
      num_district_lic = JStr (py_str e (dict_get item ''num_district_lic'' (JStr []))),
      cost_per_lic = JStr (py_str e (dict_get item ''cost_per_lic'' (JStr []))),
      cost_total = JStr (py_str e (dict_get item ''cost_total'' (JStr []))),
      contract_start_month = dict_get item ''contract_start_month'' (JStr []),
      contract_start_year = JStr (py_str e (dict_get item ''contract_start_year'' (JStr []))),
      contract_length_years =
        JStr (py_str e (dict_get item ''contract_length_years'' (JStr []))),
      install_month = dict_get item ''install_month'' (JStr []),
      install_year = JStr (py_str e (dict_get item ''install_year'' (JStr []))),
      quote_month = dict_get item ''quote_month'' (JStr []),
      quote_year = JStr (py_str e (dict_get item ''quote_year'' (JStr []))),
      misc_notes = dict_get item ''misc_notes'' (JStr []),
      round' = JStr (req_round_num req),
      source_file = JStr (pdf_name req),
      page_number = JStr (str_of_nat (page_num req + 1))\<rparr>"

definition software_record_of :: "env \<Rightarrow> request \<Rightarrow> json \<Rightarrow> exn + SoftwareRecord" where
  "software_record_of e req item =
     (case item of
        JObj kvs \<Rightarrow> Inr (record_of_item e req (note_mismatch e req kvs))
      | _ \<Rightarrow> Inl OtherException)"

text \<open>
  \<open>for item in extracted_data\<close>: a list gives its elements, a dictionary its keys, a
  string its characters; any other value is not iterable (\<open>TypeError\<close>).
\<close>

definition iter_items :: "json \<Rightarrow> exn + json list" where
  "iter_items v =
     (case v of
        JArr vs \<Rightarrow> Inr vs
      | JObj kvs \<Rightarrow> Inr (map (\<lambda>kv. JStr (fst kv)) kvs)
      | JStr s \<Rightarrow> Inr (map (\<lambda>c. JStr [c]) s)
      | _ \<Rightarrow> Inl OtherException)"

fun convert_items :: "env \<Rightarrow> request \<Rightarrow> json list \<Rightarrow> exn + SoftwareRecord list" where
  "convert_items e req [] = Inr []"
| "convert_items e req (item # items) =
     (case software_record_of e req item of
        Inl x \<Rightarrow> Inl x
      | Inr record \<Rightarrow>
          (case convert_items e req items of
             Inl x \<Rightarrow> Inl x
           | Inr records \<Rightarrow> Inr (record # records)))"

definition to_records :: "env \<Rightarrow> request \<Rightarrow> json \<Rightarrow> exn + SoftwareRecord list" where
  "to_records e req extracted_data =
     (case iter_items extracted_data of
        Inl x \<Rightarrow> Inl x
      | Inr items \<Rightarrow> convert_items e req items)"

text \<open>
  The text before the first occurrence of a separator, that is \<open>s.split(sep)[0]\<close>.
\<close>

fun before_sep :: "string \<Rightarrow> string \<Rightarrow> string" where
  "before_sep sep [] = []"
| "before_sep sep (c # cs) = (if startswith (c # cs) sep then [] else c # before_sep sep cs)"

text \<open>
  The cleaning of the reply before it is parsed: a leading code fence is cut off with the
  two \<open>split\<close> calls of the source.
\<close>

definition clean_response :: "string \<Rightarrow> string" where
  "clean_response content0 =
     (let content = strip content0;
          content1 =
            (if startswith content ''```json''
             then before_sep ''```'' (before_sep ''```json'' (drop 7 content))
             else if startswith content ''```''
             then before_sep ''```'' (before_sep ''```'' (drop 3 content))
             else content)
      in strip content1)"

section \<open>The analyzer\<close>

text \<open>
  The analyzer object with what it leaves on disk: the counters of \<open>stats\<close>, the set of
  processed identifiers, the tracker document \<open>processed_pdfs.json\<close> and the rows of the
  main detailed table \<open>extracted_software_data.csv\<close> (\<open>None\<close> while the file does not
  exist), and the trace of effects. Writes are taken to succeed. The time-stamped copies
  of the tables and the district summary are not modelled.
\<close>

record analyzer = stats +
  processed_pdfs :: "string fset"
  processed_pdfs_file :: "tracker_doc option"
  main_csv_file :: "SoftwareRecord list option"
  trace :: "event list"

definition load_processed_pdfs :: "tracker_doc option \<Rightarrow> string fset" where
  "load_processed_pdfs file =
     (case file of None \<Rightarrow> {||} | Some data \<Rightarrow> doc_processed_pdfs data)"

text \<open>A new analyzer over the files that an earlier run has left.\<close>

definition new_analyzer :: "tracker_doc option \<Rightarrow> SoftwareRecord list option \<Rightarrow> analyzer" where
  "new_analyzer tracker table =
     \<lparr>districts_processed = 0, pdfs_processed = 0, pages_analyzed = 0,
      software_records_extracted = 0, api_calls_made = 0, errors_encountered = 0,
      processed_pdfs = load_processed_pdfs tracker,
      processed_pdfs_file = tracker, main_csv_file = table, trace = []\<rparr>"

definition save_processed_pdfs :: "analyzer \<Rightarrow> analyzer" where
  "save_processed_pdfs st =
     st\<lparr>processed_pdfs_file :=
          Some \<lparr>doc_processed_pdfs = processed_pdfs st,
                total_processed = fcard (processed_pdfs st)\<rparr>,
        trace := trace st @ [TrackerSave]\<rparr>"

definition is_pdf_already_processed :: "analyzer \<Rightarrow> path \<Rightarrow> string \<Rightarrow> string \<Rightarrow> bool" where
  "is_pdf_already_processed st pdf_path dist rnd \<longleftrightarrow>
     get_pdf_identifier pdf_path dist rnd |\<in>| processed_pdfs st"

definition mark_pdf_as_processed :: "analyzer \<Rightarrow> path \<Rightarrow> string \<Rightarrow> string \<Rightarrow> analyzer" where
  "mark_pdf_as_processed st pdf_path dist rnd =
     (let pdf_id = get_pdf_identifier pdf_path dist rnd;
          st1 = st\<lparr>processed_pdfs := finsert pdf_id (processed_pdfs st)\<rparr>
      in if fcard (processed_pdfs st1) mod 5 = 0 then save_processed_pdfs st1 else st1)"

subsection \<open>One page\<close>

definition max_retries :: nat where
  "max_retries = 3"

text \<open>
  One pass through the body of the retry loop. The result is the value returned by
  \<open>analyze_page_with_gpt\<close> (or the exception that leaves it), or \<open>None\<close> when the loop
  goes on with the next attempt; with it come the retry delay and the analyzer as the pass
  leaves them.
\<close>

definition last_attempt_or_retry ::
  "nat \<Rightarrow> rat \<Rightarrow> analyzer \<Rightarrow> (exn + SoftwareRecord list) option \<times> rat \<times> analyzer" where
  "last_attempt_or_retry attempt retry_delay st =
     (if attempt = max_retries - 1
      then (Some (Inr []), retry_delay, st\<lparr>errors_encountered := errors_encountered st + 1\<rparr>)
      else (None, retry_delay * (3 / 2), st\<lparr>trace := trace st @ [Sleep retry_delay]\<rparr>))"

definition attempt_once ::
  "env \<Rightarrow> request \<Rightarrow> nat \<Rightarrow> rat \<Rightarrow> analyzer
     \<Rightarrow> (exn + SoftwareRecord list) option \<times> rat \<times> analyzer" where
  "attempt_once e req attempt retry_delay st =
     (let st1 = st\<lparr>api_calls_made := api_calls_made st + 1,
                    trace := trace st @ [ApiCall (pdf_name req) (page_num req) attempt]\<rparr>
      in case api_post e req attempt of
           Interrupted \<Rightarrow> (Some (Inl KeyboardInterrupt), retry_delay, st1)
         | RequestFailed \<Rightarrow> last_attempt_or_retry attempt retry_delay st1
         | UnexpectedFailure \<Rightarrow> last_attempt_or_retry attempt retry_delay st1
         | Content content \<Rightarrow>
             (case parse_json_with_recovery (clean_response content) of
                Inl x \<Rightarrow>
                  (if attempt = max_retries - 1
                   then (Some (Inr []), retry_delay,
                         st1\<lparr>errors_encountered := errors_encountered st1 + 1\<rparr>)
                   else (None, retry_delay, st1))
              | Inr extracted_data \<Rightarrow>
                  (case to_records e req extracted_data of
                     Inl x \<Rightarrow> last_attempt_or_retry attempt retry_delay st1
                   | Inr records \<Rightarrow>
                       (Some (Inr records), retry_delay,
                        st1\<lparr>software_records_extracted :=
                              software_records_extracted st1 + length records\<rparr>))))"

text \<open>
  \<open>for attempt in range(max_retries)\<close>, and what stands behind the loop.
\<close>

fun retry_loop ::
  "env \<Rightarrow> request \<Rightarrow> nat list \<Rightarrow> rat \<Rightarrow> analyzer
     \<Rightarrow> (exn + SoftwareRecord list) \<times> analyzer" where
  "retry_loop e req [] retry_delay st =
     (Inr [], st\<lparr>errors_encountered := errors_encountered st + 1\<rparr>)"
| "retry_loop e req (attempt # attempts) retry_delay st =
     (case attempt_once e req attempt retry_delay st of
        (Some result, retry_delay1, st1) \<Rightarrow> (result, st1)
      | (None, retry_delay1, st1) \<Rightarrow> retry_loop e req attempts retry_delay1 st1)"

definition analyze_page_with_gpt ::
  "env \<Rightarrow> analyzer \<Rightarrow> request \<Rightarrow> (exn + SoftwareRecord list) \<times> analyzer" where
  "analyze_page_with_gpt e st req =
     (if image_bytes req = [] then (Inr [], st)
      else retry_loop e req [0..<max_retries] 2 st)"

subsection \<open>One PDF\<close>

text \<open>
  \<open>extract_page_content\<close> opens the document again and renders one page; whatever fails
  there gives the empty image and the empty text.
\<close>

definition extract_page_content :: "entry \<Rightarrow> nat \<Rightarrow> string \<times> string" where
  "extract_page_content pdf n =
     (case fitz_open pdf of
        None \<Rightarrow> ([], [])
      | Some pages \<Rightarrow>
          (if n < length pages
           then (case pages ! n of None \<Rightarrow> ([], []) | Some content \<Rightarrow> content)
           else ([], [])))"

text \<open>
  \<open>for page_num in range(total_pages)\<close>, with the records collected so far. An exception
  leaves the loop at once.
\<close>

fun process_pages ::
  "env \<Rightarrow> pdf_file \<Rightarrow> string \<Rightarrow> string \<Rightarrow> nat list \<Rightarrow> SoftwareRecord list \<Rightarrow> analyzer
     \<Rightarrow> (exn + SoftwareRecord list) \<times> analyzer" where
  "process_pages e pdf dist rnd [] all_records st = (Inr all_records, st)"
| "process_pages e pdf dist rnd (n # ns) all_records st =
     (let st1 = st\<lparr>trace := trace st @ [Extract (fst pdf) n]\<rparr>;
          (img, txt) = extract_page_content (snd pdf) n;
          (result, st2) =
            (if img \<noteq> []
             then analyze_page_with_gpt e st1
                    \<lparr>image_bytes = img, text_content = txt, req_district = dist,
                     req_round_num = rnd, pdf_name = path_name (fst pdf), page_num = n\<rparr>
             else (Inr [], st1))
      in case result of
           Inl x \<Rightarrow> (Inl x, st2)
         | Inr records \<Rightarrow>
             process_pages e pdf dist rnd ns (all_records @ records)
               (st2\<lparr>pages_analyzed := pages_analyzed st2 + 1,
                     trace := trace st2 @ [Sleep (3 / 2)]\<rparr>))"

text \<open>
  \<open>process_pdf\<close>. Its handler catches the exceptions of class \<open>Exception\<close>; the interrupt
  of the user passes through it.
\<close>

definition process_pdf ::
  "env \<Rightarrow> analyzer \<Rightarrow> pdf_file \<Rightarrow> string \<Rightarrow> string
     \<Rightarrow> (exn + SoftwareRecord list) \<times> analyzer" where
  "process_pdf e st pdf dist rnd =
     (if is_pdf_already_processed st (fst pdf) dist rnd then (Inr [], st)
      else
        (case fitz_open (snd pdf) of
           None \<Rightarrow> (Inr [], st\<lparr>errors_encountered := errors_encountered st + 1\<rparr>)
         | Some doc \<Rightarrow>
             (case process_pages e pdf dist rnd [0..<length doc] [] st of
                (Inl x, st1) \<Rightarrow>
                  (if x = KeyboardInterrupt then (Inl x, st1)
                   else (Inr [], st1\<lparr>errors_encountered := errors_encountered st1 + 1\<rparr>))
              | (Inr all_records, st1) \<Rightarrow>
                  (Inr all_records,
                   mark_pdf_as_processed (st1\<lparr>pdfs_processed := pdfs_processed st1 + 1\<rparr>)
                     (fst pdf) dist rnd))))"

section \<open>Batch orchestrator\<close>

definition endswith :: "string \<Rightarrow> string \<Rightarrow> bool" where
  "endswith s suffix = startswith (rev s) (rev suffix)"

text \<open>\<open>sub in s\<close> on strings.\<close>

fun contains :: "string \<Rightarrow> string \<Rightarrow> bool" where
  "contains [] sub = (sub = [])"
| "contains (c # cs) sub = (startswith (c # cs) sub \<or> contains cs sub)"

text \<open>The slice \<open>xs[:k]\<close>; a negative \<open>k\<close> counts from the end.\<close>

definition slice_to :: "int \<Rightarrow> 'a list \<Rightarrow> 'a list" where
  "slice_to k xs = (if 0 \<le> k then take (nat k) xs else take (length xs - nat (- k)) xs)"

text \<open>
  \<open>get_round_folders\<close>: the loop over the directory listing, in the order of the listing,
  with the dictionary built so far.
\<close>

definition round_folder_step :: "(string \<rightharpoonup> entry) \<Rightarrow> entry \<Rightarrow> (string \<rightharpoonup> entry)" where
  "round_folder_step round_folders item =
     (if is_dir item then
        (case normalize_round_name (entry_name item) of
           None \<Rightarrow> round_folders
         | Some round_num \<Rightarrow>
             if round_num = [] then round_folders
             else
               (case round_folders round_num of
                  Some current \<Rightarrow>
                    (let current_name = entry_name current; new_name = entry_name item
                     in if length new_name < length current_name \<or> startswith new_name ''R''
                        then round_folders(round_num \<mapsto> item) else round_folders)
                | None \<Rightarrow> round_folders(round_num \<mapsto> item)))
      else round_folders)"

definition get_round_folders :: "entry \<Rightarrow> (string \<rightharpoonup> entry)" where
  "get_round_folders district_path = foldl round_folder_step Map.empty (iterdir district_path)"

text \<open>
  \<open>folder_path.rglob("*.pdf")\<close>: the matching entries of a directory in the order of its
  listing, then those of its subdirectories. The first argument is the path of the
  directory itself.
\<close>

fun rglob_pdf :: "path \<Rightarrow> entry \<Rightarrow> pdf_file list" where
  "rglob_pdf p (File n c) = []"
| "rglob_pdf p (Dir n es) =
     map (\<lambda>x. (p @ [entry_name x], x)) (filter (\<lambda>x. endswith (entry_name x) ''.pdf'') es)
     @ concat (map (\<lambda>x. rglob_pdf (p @ [entry_name x]) x) es)"

text \<open>
  \<open>get_pdfs_sorted_by_page_count\<close>: a file that cannot be opened counts 0 pages; the sort
  is stable.
\<close>

definition page_count :: "pdf_file \<Rightarrow> nat" where
  "page_count pdf = (case fitz_open (snd pdf) of None \<Rightarrow> 0 | Some doc \<Rightarrow> length doc)"

definition get_pdfs_sorted_by_page_count :: "path \<Rightarrow> entry \<Rightarrow> int option \<Rightarrow> pdf_file list" where
  "get_pdfs_sorted_by_page_count p folder_path limit =
     (let sorted_pdfs = sort_key page_count (rglob_pdf p folder_path)
      in case limit of
           None \<Rightarrow> sorted_pdfs
         | Some k \<Rightarrow> if k \<noteq> 0 then slice_to k sorted_pdfs else sorted_pdfs)"

text \<open>
  \<open>filter_districts_by_name\<close>: per target name the exact matches, else the partial ones;
  duplicates are dropped behind their first occurrence.
\<close>

definition matches_of :: "entry list \<Rightarrow> string \<Rightarrow> entry list" where
  "matches_of all_districts target_name =
     (let exact_matches = filter (\<lambda>d. lower (entry_name d) = lower target_name) all_districts
      in if exact_matches \<noteq> [] then exact_matches
         else filter (\<lambda>d. contains (lower (entry_name d)) (lower target_name)) all_districts)"

fun unique :: "'a list \<Rightarrow> 'a list \<Rightarrow> 'a list" where
  "unique seen [] = []"
| "unique seen (x # xs) = (if x \<in> set seen then unique seen xs else x # unique (x # seen) xs)"

definition filter_districts_by_name :: "string list \<Rightarrow> entry list \<Rightarrow> entry list" where
  "filter_districts_by_name district_names all_districts =
     (if district_names = [] then all_districts
      else unique [] (concat (map (matches_of all_districts) district_names)))"

text \<open>
  \<open>write_detailed_csv\<close> on the rows of a file: nothing is written for an empty list of
  records; in append mode the rows are added to an existing file.
\<close>

definition write_detailed_csv ::
  "SoftwareRecord list \<Rightarrow> SoftwareRecord list option \<Rightarrow> bool \<Rightarrow> SoftwareRecord list option" where
  "write_detailed_csv records output append_mode =
     (if records = [] then output
      else (case output of
              Some rows \<Rightarrow> (if append_mode then Some (rows @ records) else Some records)
            | None \<Rightarrow> Some records))"

definition save_intermediate_results :: "analyzer \<Rightarrow> SoftwareRecord list \<Rightarrow> analyzer" where
  "save_intermediate_results st records =
     save_processed_pdfs
       (st\<lparr>main_csv_file := write_detailed_csv records (main_csv_file st) True\<rparr>)"

definition save_final_results :: "analyzer \<Rightarrow> SoftwareRecord list \<Rightarrow> analyzer" where
  "save_final_results st records =
     save_processed_pdfs
       (st\<lparr>main_csv_file := write_detailed_csv records (main_csv_file st) True\<rparr>)"

text \<open>The loops of \<open>process_all_districts\<close>, innermost first.\<close>

fun process_pdf_files ::
  "env \<Rightarrow> string \<Rightarrow> string \<Rightarrow> pdf_file list \<Rightarrow> SoftwareRecord list \<Rightarrow> analyzer
     \<Rightarrow> (exn + SoftwareRecord list) \<times> analyzer" where
  "process_pdf_files e dist rnd [] all_records st = (Inr all_records, st)"
| "process_pdf_files e dist rnd (pdf # pdfs) all_records st =
     (case process_pdf e st pdf dist rnd of
        (Inl x, st1) \<Rightarrow> (Inl x, st1)
      | (Inr records, st1) \<Rightarrow> process_pdf_files e dist rnd pdfs (all_records @ records) st1)"

fun process_rounds ::
  "env \<Rightarrow> path \<Rightarrow> string \<Rightarrow> (string \<rightharpoonup> entry) \<Rightarrow> int option \<Rightarrow> string list
     \<Rightarrow> SoftwareRecord list \<Rightarrow> analyzer \<Rightarrow> (exn + SoftwareRecord list) \<times> analyzer" where
  "process_rounds e p dist round_folders limit [] all_records st = (Inr all_records, st)"
| "process_rounds e p dist round_folders limit (rnd # rnds) all_records st =
     (case round_folders rnd of
        None \<Rightarrow> process_rounds e p dist round_folders limit rnds all_records st
      | Some folder_path \<Rightarrow>
          (case process_pdf_files e dist rnd
                  (get_pdfs_sorted_by_page_count (p @ [entry_name folder_path]) folder_path limit)
                  all_records st of
             (Inl x, st1) \<Rightarrow> (Inl x, st1)
           | (Inr all_records1, st1) \<Rightarrow>
               process_rounds e p dist round_folders limit rnds all_records1 st1))"

fun process_districts ::
  "env \<Rightarrow> path \<Rightarrow> int option \<Rightarrow> entry list \<Rightarrow> SoftwareRecord list \<Rightarrow> analyzer
     \<Rightarrow> (exn + SoftwareRecord list) \<times> analyzer" where
  "process_districts e base limit [] all_records st = (Inr all_records, st)"
| "process_districts e base limit (district_folder # folders) all_records st =
     (case process_rounds e (base @ [entry_name district_folder]) (entry_name district_folder)
             (get_round_folders district_folder) limit [''1'', ''2'', ''3'', ''4'']
             all_records st of
        (Inl x, st1) \<Rightarrow> (Inl x, st1)
      | (Inr all_records1, st1) \<Rightarrow>
          (let st2 = st1\<lparr>districts_processed := districts_processed st1 + 1\<rparr>;
               st3 = (if districts_processed st2 mod 5 = 0
                      then save_intermediate_results st2 all_records1 else st2)
           in process_districts e base limit folders all_records1 st3))"

text \<open>
  \<open>process_all_districts\<close>. \<open>None\<close> and the empty list of district names are the same to
  it, as are \<open>None\<close> and 0 for a limit. Listing a base directory that is no directory
  raises.
\<close>

definition district_folders_of :: "entry \<Rightarrow> entry list" where
  "district_folders_of base_dir =
     filter (\<lambda>d. is_dir d \<and> entry_name d \<notin> set [''.DS_Store'', ''__pycache__''])
       (iterdir base_dir)"

definition process_all_districts ::
  "env \<Rightarrow> analyzer \<Rightarrow> entry \<Rightarrow> int option \<Rightarrow> int option \<Rightarrow> string list
     \<Rightarrow> (exn + unit) \<times> analyzer" where
  "process_all_districts e st base_dir limit_districts limit_pdfs_per_round district_names =
     (if \<not> is_dir base_dir then (Inl OtherException, st)
      else
        (let all_district_folders = district_folders_of base_dir;
             district_folders = filter_districts_by_name district_names all_district_folders
         in if district_names \<noteq> [] \<and> district_folders = [] then (Inr (), st)
            else
              (let district_folders1 =
                     (case limit_districts of
                        None \<Rightarrow> district_folders
                      | Some k \<Rightarrow>
                          if k \<noteq> 0 then slice_to k (sort_key entry_name district_folders)
                          else district_folders)
               in case process_districts e [entry_name base_dir] limit_pdfs_per_round
                         (sort_key entry_name district_folders1) [] st of
                    (Inl x, st1) \<Rightarrow> (Inl x, st1)
                  | (Inr all_records, st1) \<Rightarrow> (Inr (), save_final_results st1 all_records))))"

section \<open>Evaluation of the model on concrete inputs\<close>

lemmas json_eval = json_loads_def skip_ws_def json_ws_def match_number_def match_int_def
  match_frac_def match_exp_def is_digit_def BACKSLASH_def hex_val_def is_hex_def
  scan_escape_def decode_uXXXX_def chr_latin1_def

lemmas recovery_eval = strategy1_def strategy2_def strategy3_def strategy4_def
  search_array_def extract_json_objects_def keep_object_def dict_get_def not_brace_def
  find_last_complete_json_def is_space_def num_is_zero_def

section \<open>The tracker\<close>

text \<open>
  The identifiers that the tracker document does not hold yet, and the invariant that
  bounds them: the document is a part of the set in memory, and the identifiers missing
  from it are at most as many as the size of the set exceeds a multiple of 5.
\<close>

definition unsaved :: "analyzer \<Rightarrow> string fset" where
  "unsaved st = processed_pdfs st |-| load_processed_pdfs (processed_pdfs_file st)"

definition tracker_inv :: "analyzer \<Rightarrow> bool" where
  "tracker_inv st \<longleftrightarrow>
     load_processed_pdfs (processed_pdfs_file st) |\<subseteq>| processed_pdfs st \<and>
     fcard (unsaved st) \<le> fcard (processed_pdfs st) mod 5"

lemma mark_processed_set:
  "processed_pdfs (mark_pdf_as_processed st p d r)
     = finsert (get_pdf_identifier p d r) (processed_pdfs st)"
  by (simp add: mark_pdf_as_processed_def save_processed_pdfs_def Let_def)

lemma mark_saves:
  "fcard (finsert (get_pdf_identifier p d r) (processed_pdfs st)) mod 5 = 0 \<Longrightarrow>
   mark_pdf_as_processed st p d r
     = save_processed_pdfs (st\<lparr>processed_pdfs := finsert (get_pdf_identifier p d r) (processed_pdfs st)\<rparr>)"
  by (simp add: mark_pdf_as_processed_def Let_def)

lemma mark_no_save:
  "fcard (finsert (get_pdf_identifier p d r) (processed_pdfs st)) mod 5 \<noteq> 0 \<Longrightarrow>
   mark_pdf_as_processed st p d r
     = st\<lparr>processed_pdfs := finsert (get_pdf_identifier p d r) (processed_pdfs st)\<rparr>"
  by (simp add: mark_pdf_as_processed_def Let_def)

lemma unsaved_after_save: "unsaved (save_processed_pdfs st) = {||}"
  by (simp add: unsaved_def save_processed_pdfs_def load_processed_pdfs_def)

lemma tracker_inv_save: "tracker_inv (save_processed_pdfs st)"
  by (simp add: tracker_inv_def unsaved_def save_processed_pdfs_def load_processed_pdfs_def
      fcard_fempty)

lemma tracker_inv_mark:
  assumes "tracker_inv st"
  shows "tracker_inv (mark_pdf_as_processed st p d r)"
proof (cases "fcard (finsert (get_pdf_identifier p d r) (processed_pdfs st)) mod 5 = 0")
  case True
  then show ?thesis by (simp add: mark_saves tracker_inv_save)
next
  case False
  let ?pid = "get_pdf_identifier p d r"
  let ?S = "load_processed_pdfs (processed_pdfs_file st)"
  from assms have sub: "?S |\<subseteq>| processed_pdfs st"
    and le: "fcard (processed_pdfs st |-| ?S) \<le> fcard (processed_pdfs st) mod 5"
    by (simp_all add: tracker_inv_def unsaved_def)
  show ?thesis
  proof (cases "?pid |\<in>| processed_pdfs st")
    case True
    then have "finsert ?pid (processed_pdfs st) = processed_pdfs st" by auto
    with False assms show ?thesis
      by (simp add: mark_no_save tracker_inv_def unsaved_def)
  next
    case nin: False
    then have c: "fcard (finsert ?pid (processed_pdfs st)) = Suc (fcard (processed_pdfs st))"
      by (simp add: fcard_finsert_disjoint)
    from nin sub have "?pid |\<notin>| ?S" by auto
    then have d: "finsert ?pid (processed_pdfs st) |-| ?S = finsert ?pid (processed_pdfs st |-| ?S)"
      by auto
    have "fcard (finsert ?pid (processed_pdfs st |-| ?S)) = Suc (fcard (processed_pdfs st |-| ?S))"
      using nin by (simp add: fcard_finsert_disjoint)
    moreover from False c have "Suc (fcard (processed_pdfs st)) mod 5 = Suc (fcard (processed_pdfs st) mod 5)"
      by (metis mod_Suc)
    ultimately show ?thesis
      using False sub le c d
      by (auto simp: mark_no_save tracker_inv_def unsaved_def)
  qed
qed

text \<open>
  C8. Every call of \<open>mark_pdf_as_processed\<close> adds the identifier to the set in memory.
  The tracker document is written exactly when the size of the set has become a multiple
  of 5, that is on every 5th identifier added; otherwise document and trace stay as they
  are. Under the invariant, which holds when an analyzer starts and after every save, at
  most 4 identifiers are missing from the document after the call.
\<close>

theorem mark_pdf_as_processed_cadence:
  "processed_pdfs (mark_pdf_as_processed st p d r)
     = finsert (get_pdf_identifier p d r) (processed_pdfs st)
   \<and> (if fcard (processed_pdfs (mark_pdf_as_processed st p d r)) mod 5 = 0
      then processed_pdfs_file (mark_pdf_as_processed st p d r)
             = Some \<lparr>doc_processed_pdfs = processed_pdfs (mark_pdf_as_processed st p d r),
                     total_processed = fcard (processed_pdfs (mark_pdf_as_processed st p d r))\<rparr>
           \<and> trace (mark_pdf_as_processed st p d r) = trace st @ [TrackerSave]
      else processed_pdfs_file (mark_pdf_as_processed st p d r) = processed_pdfs_file st
           \<and> trace (mark_pdf_as_processed st p d r) = trace st)
   \<and> (tracker_inv st \<longrightarrow>
        tracker_inv (mark_pdf_as_processed st p d r)
        \<and> fcard (unsaved (mark_pdf_as_processed st p d r)) \<le> 4)"
proof -
  have "fcard (unsaved (mark_pdf_as_processed st p d r)) \<le> 4"
    if "tracker_inv (mark_pdf_as_processed st p d r)"
  proof -
    have "fcard (processed_pdfs (mark_pdf_as_processed st p d r)) mod 5 < 5" by simp
    with that show ?thesis unfolding tracker_inv_def by linarith
  qed
  then show ?thesis
    by (auto simp: mark_processed_set tracker_inv_mark)
       (simp_all add: mark_saves mark_no_save save_processed_pdfs_def)
qed

definition st4 :: analyzer where
  "st4 = (new_analyzer None None)\<lparr>processed_pdfs := {|''D/1/a.pdf'', ''D/1/b.pdf'', ''D/1/c.pdf'', ''D/1/d.pdf''|}\<rparr>"

lemma st4_inv: "tracker_inv st4"
  by code_simp

theorem mark_pdf_as_processed_cadence_witness:
  "tracker_inv st4
   \<and> processed_pdfs_file (mark_pdf_as_processed st4 [''RA'', ''D'', ''R1'', ''e.pdf''] ''D'' ''1'')
       = Some \<lparr>doc_processed_pdfs = {|''D/1/e.pdf'', ''D/1/a.pdf'', ''D/1/b.pdf'', ''D/1/c.pdf'', ''D/1/d.pdf''|}, total_processed = 5\<rparr>
   \<and> fcard (unsaved (mark_pdf_as_processed st4 [''RA'', ''D'', ''R1'', ''e.pdf''] ''D'' ''1'')) \<le> 4"
proof -
  have c: "fcard (processed_pdfs (mark_pdf_as_processed st4 [''RA'', ''D'', ''R1'', ''e.pdf''] ''D'' ''1'')) mod 5 = 0"
    by code_simp
  have p: "processed_pdfs (mark_pdf_as_processed st4 [''RA'', ''D'', ''R1'', ''e.pdf''] ''D'' ''1'') = {|''D/1/e.pdf'', ''D/1/a.pdf'', ''D/1/b.pdf'', ''D/1/c.pdf'', ''D/1/d.pdf''|}"
    by code_simp
  have f: "fcard {|''D/1/e.pdf'', ''D/1/a.pdf'', ''D/1/b.pdf'', ''D/1/c.pdf'', ''D/1/d.pdf''|} = 5"
    by code_simp
  show ?thesis
    using mark_pdf_as_processed_cadence [of st4 "[''RA'', ''D'', ''R1'', ''e.pdf'']" "''D''" "''1''"] st4_inv c
    by (simp add: p f)
qed

section \<open>The recovery parser\<close>

text \<open>
  C4. When all four salvage strategies fail, \<open>parse_json_with_recovery\<close> raises the
  JSON decode error; every value it returns is the value of one of the strategies, and the
  only exception it raises is the decode error, raised only when all four have failed.
\<close>

theorem parse_json_with_recovery_signals:
  "(strategy1 content = None \<and> strategy2 content = None \<and> strategy3 content = None
      \<and> strategy4 content = None
      \<longrightarrow> parse_json_with_recovery content = Inl JSONDecodeError)
   \<and> (parse_json_with_recovery content = Inr v
      \<longrightarrow> strategy1 content = Some v \<or> strategy2 content = Some v
          \<or> strategy3 content = Some v \<or> strategy4 content = Some v)
   \<and> (parse_json_with_recovery content = Inl x
      \<longrightarrow> x = JSONDecodeError \<and> strategy1 content = None \<and> strategy2 content = None
          \<and> strategy3 content = None \<and> strategy4 content = None)"
  by (auto simp: parse_json_with_recovery_def split: option.splits)

lemma no_strategy_on_prose:
  "strategy1 ''no software here'' = None" "strategy2 ''no software here'' = None"
  "strategy3 ''no software here'' = None" "strategy4 ''no software here'' = None"
  by (simp_all add: json_eval recovery_eval)

lemma strategy1_empty_array: "parse_json_with_recovery ''[]'' = Inr (JArr [])"
  by (simp add: json_eval recovery_eval parse_json_with_recovery_def)

theorem parse_json_with_recovery_signals_witness:
  "parse_json_with_recovery ''no software here'' = Inl JSONDecodeError
   \<and> strategy1 ''[]'' = Some (JArr [])"
proof -
  have s: "strategy2 ''[]'' \<noteq> Some (JArr []) \<or> True" by simp
  have "strategy1 ''[]'' = Some (JArr [])"
    by (simp add: json_eval recovery_eval)
  then show ?thesis
    using parse_json_with_recovery_signals [of "''no software here''" "JArr []" JSONDecodeError]
      parse_json_with_recovery_signals [of "''[]''" "JArr []" JSONDecodeError]
      no_strategy_on_prose strategy1_empty_array
    by simp
qed

section \<open>Round folders\<close>

text \<open>
  C6. The folder chosen among those of one round depends on the order of the directory
  listing: of \<open>R1\<close> and \<open>Round 1\<close> the one listed last is taken, since both names start
  with \<open>R\<close>.
\<close>

theorem get_round_folders_order_dependent:
  "get_round_folders (Dir ''Lincoln'' [Dir ''R1'' [], Dir ''Round 1'' []]) ''1''
     = Some (Dir ''Round 1'' [])
   \<and> get_round_folders (Dir ''Lincoln'' [Dir ''Round 1'' [], Dir ''R1'' []]) ''1''
     = Some (Dir ''R1'' [])"
  by code_simp

section \<open>Effects of a run\<close>

text \<open>The pages rendered and the sleeps taken, read off a trace.\<close>

fun extract_of :: "event \<Rightarrow> (path \<times> nat) list" where
  "extract_of (Extract p n) = [(p, n)]"
| "extract_of ev = []"

fun sleep_of :: "event \<Rightarrow> rat list" where
  "sleep_of (Sleep d) = [d]"
| "sleep_of ev = []"

definition extracted :: "event list \<Rightarrow> (path \<times> nat) list" where
  "extracted tr = concat (map extract_of tr)"

definition sleeps :: "event list \<Rightarrow> rat list" where
  "sleeps tr = concat (map sleep_of tr)"

lemma extracted_append [simp]: "extracted (xs @ ys) = extracted xs @ extracted ys"
  by (simp add: extracted_def)

lemma sleeps_append [simp]: "sleeps (xs @ ys) = sleeps xs @ sleeps ys"
  by (simp add: sleeps_def)

lemma extracted_simps [simp]:
  "extracted [] = []" "extracted (ev # tr) = extract_of ev @ extracted tr"
  by (simp_all add: extracted_def)

lemma sleeps_simps [simp]:
  "sleeps [] = []" "sleeps (ev # tr) = sleep_of ev @ sleeps tr"
  by (simp_all add: sleeps_def)

text \<open>What one pass of the retry loop leaves untouched.\<close>

definition page_frame :: "analyzer \<Rightarrow> analyzer \<Rightarrow> bool" where
  "page_frame st st' \<longleftrightarrow>
     processed_pdfs st' = processed_pdfs st \<and>
     processed_pdfs_file st' = processed_pdfs_file st \<and>
     main_csv_file st' = main_csv_file st \<and>
     pages_analyzed st' = pages_analyzed st \<and>
     pdfs_processed st' = pdfs_processed st \<and>
     districts_processed st' = districts_processed st \<and>
     extracted (trace st') = extracted (trace st)"

lemma page_frame_refl [simp]: "page_frame st st"
  by (simp add: page_frame_def)

lemma page_frame_trans: "page_frame a b \<Longrightarrow> page_frame b c \<Longrightarrow> page_frame a c"
  by (simp add: page_frame_def)

lemma last_attempt_or_retry_frame:
  "last_attempt_or_retry a d st = (r, d', st') \<Longrightarrow> page_frame st st'"
  by (auto simp: last_attempt_or_retry_def page_frame_def split: if_splits)

lemma attempt_once_frame:
  assumes "attempt_once e req a d st = (r, d', st')"
  shows "page_frame st st'"
proof -
  let ?st1 = "st\<lparr>api_calls_made := api_calls_made st + 1,
                  trace := trace st @ [ApiCall (pdf_name req) (page_num req) a]\<rparr>"
  have f1: "page_frame st ?st1" by (simp add: page_frame_def)
  have "page_frame ?st1 st'"
    using assms
    by (auto simp: attempt_once_def Let_def page_frame_def
        dest!: last_attempt_or_retry_frame
        split: api_outcome.splits sum.splits if_splits)
  with f1 show ?thesis by (rule page_frame_trans)
qed

lemma retry_loop_frame:
  "retry_loop e req as d st = (res, st') \<Longrightarrow> page_frame st st'"
proof (induction as arbitrary: d st)
  case Nil
  then show ?case by (auto simp: page_frame_def)
next
  case (Cons a as)
  obtain r d1 st1 where a1: "attempt_once e req a d st = (r, d1, st1)"
    by (cases "attempt_once e req a d st") auto
  have f: "page_frame st st1" using a1 by (rule attempt_once_frame)
  show ?case
  proof (cases r)
    case None
    with Cons.prems a1 have "retry_loop e req as d1 st1 = (res, st')" by simp
    then have "page_frame st1 st'" by (rule Cons.IH)
    with f show ?thesis by (rule page_frame_trans)
  next
    case (Some x)
    with Cons.prems a1 have "st' = st1" by simp
    with f show ?thesis by simp
  qed
qed

lemma analyze_page_frame:
  "analyze_page_with_gpt e st req = (res, st') \<Longrightarrow> page_frame st st'"
  by (auto simp: analyze_page_with_gpt_def dest: retry_loop_frame split: if_splits)

text \<open>The page loop.\<close>

lemma process_pages_tracker:
  "process_pages e pdf dist rnd ns acc st = (res, st') \<Longrightarrow>
     processed_pdfs st' = processed_pdfs st \<and>
     processed_pdfs_file st' = processed_pdfs_file st \<and>
     main_csv_file st' = main_csv_file st \<and>
     pdfs_processed st' = pdfs_processed st"
proof (induction ns arbitrary: acc st)
  case Nil
  then show ?case by simp
next
  case (Cons n ns)
  let ?st1 = "st\<lparr>trace := trace st @ [Extract (fst pdf) n]\<rparr>"
  obtain img tx where x: "extract_page_content (snd pdf) n = (img, tx)"
    by (cases "extract_page_content (snd pdf) n") auto
  let ?req = "\<lparr>image_bytes = img, text_content = tx, req_district = dist,
                req_round_num = rnd, pdf_name = path_name (fst pdf), page_num = n\<rparr>"
  obtain r st2 where a:
    "(if img \<noteq> [] then analyze_page_with_gpt e ?st1 ?req else (Inr [], ?st1)) = (r, st2)"
    by (cases "if img \<noteq> [] then analyze_page_with_gpt e ?st1 ?req else (Inr [], ?st1)") auto
  have f: "page_frame ?st1 st2"
    using a by (auto dest: analyze_page_frame split: if_splits)
  show ?case
  proof (cases r)
    case (Inl x1)
    with Cons.prems x a have "st' = st2" by (simp add: Let_def)
    with f show ?thesis by (simp add: page_frame_def)
  next
    case (Inr records)
    with Cons.prems x a have
      "process_pages e pdf dist rnd ns (acc @ records)
         (st2\<lparr>pages_analyzed := pages_analyzed st2 + 1,
               trace := trace st2 @ [Sleep (3 / 2)]\<rparr>) = (res, st')"
      by (simp add: Let_def)
    from Cons.IH [OF this] f show ?thesis by (simp add: page_frame_def)
  qed
qed

lemma process_pages_all_attempted:
  "process_pages e pdf dist rnd ns acc st = (Inr records, st') \<Longrightarrow>
     pages_analyzed st' = pages_analyzed st + length ns \<and>
     extracted (trace st') = extracted (trace st) @ map (Pair (fst pdf)) ns"
proof (induction ns arbitrary: acc st)
  case Nil
  then show ?case by simp
next
  case (Cons n ns)
  let ?st1 = "st\<lparr>trace := trace st @ [Extract (fst pdf) n]\<rparr>"
  obtain img tx where x: "extract_page_content (snd pdf) n = (img, tx)"
    by (cases "extract_page_content (snd pdf) n") auto
  let ?req = "\<lparr>image_bytes = img, text_content = tx, req_district = dist,
                req_round_num = rnd, pdf_name = path_name (fst pdf), page_num = n\<rparr>"
  obtain r st2 where a:
    "(if img \<noteq> [] then analyze_page_with_gpt e ?st1 ?req else (Inr [], ?st1)) = (r, st2)"
    by (cases "if img \<noteq> [] then analyze_page_with_gpt e ?st1 ?req else (Inr [], ?st1)") auto
  have f: "page_frame ?st1 st2"
    using a by (auto dest: analyze_page_frame split: if_splits)
  show ?case
  proof (cases r)
    case (Inl x1)
    with Cons.prems x a show ?thesis by (simp add: Let_def)
  next
    case (Inr recs)
    with Cons.prems x a have
      "process_pages e pdf dist rnd ns (acc @ recs)
         (st2\<lparr>pages_analyzed := pages_analyzed st2 + 1,
               trace := trace st2 @ [Sleep (3 / 2)]\<rparr>) = (Inr records, st')"
      by (simp add: Let_def)
    from Cons.IH [OF this] f show ?thesis by (simp add: page_frame_def)
  qed
qed

text \<open>
  The attempts at pages, read off a trace in the order in which they happened: the
  rendering of a page, and the first request that is sent to the service for a page (the
  requests of the retries are left out).
\<close>

fun attempt_of :: "event \<Rightarrow> event list" where
  "attempt_of (Extract p n) = [Extract p n]"
| "attempt_of (ApiCall name n attempt) = (if attempt = 0 then [ApiCall name n attempt] else [])"
| "attempt_of ev = []"

definition attempts :: "event list \<Rightarrow> event list" where
  "attempts tr = concat (map attempt_of tr)"

text \<open>
  What the attempt at one page of a PDF leaves there: the page is rendered, and it is sent
  to the service when the rendering has given an image.
\<close>

definition page_attempt :: "pdf_file \<Rightarrow> nat \<Rightarrow> event list" where
  "page_attempt pdf n =
     Extract (fst pdf) n
       # (if fst (extract_page_content (snd pdf) n) \<noteq> []
          then [ApiCall (path_name (fst pdf)) n 0] else [])"

lemma attempts_append [simp]: "attempts (xs @ ys) = attempts xs @ attempts ys"
  by (simp add: attempts_def)

lemma attempts_simps [simp]:
  "attempts [] = []" "attempts (ev # tr) = attempt_of ev @ attempts tr"
  by (simp_all add: attempts_def)

lemma last_attempt_or_retry_attempts:
  "last_attempt_or_retry a d st = (r, d', st') \<Longrightarrow> attempts (trace st') = attempts (trace st)"
  by (auto simp: last_attempt_or_retry_def split: if_splits)

lemma attempt_once_attempts:
  assumes "attempt_once e req a d st = (r, d', st')"
  shows "attempts (trace st')
           = attempts (trace st)
               @ (if a = 0 then [ApiCall (pdf_name req) (page_num req) 0] else [])"
  using assms
  by (auto simp: attempt_once_def Let_def
      dest!: last_attempt_or_retry_attempts
      split: api_outcome.splits sum.splits if_splits)

lemma retry_loop_later_attempts:
  "retry_loop e req as d st = (res, st') \<Longrightarrow> 0 \<notin> set as \<Longrightarrow>
     attempts (trace st') = attempts (trace st)"
proof (induction as arbitrary: d st)
  case Nil
  then show ?case by auto
next
  case (Cons a as)
  obtain r d1 st1 where a1: "attempt_once e req a d st = (r, d1, st1)"
    by (cases "attempt_once e req a d st") auto
  from Cons.prems(2) have a0: "a \<noteq> 0" and as0: "0 \<notin> set as" by auto
  have f: "attempts (trace st1) = attempts (trace st)"
    using attempt_once_attempts [OF a1] a0 by simp
  show ?case
  proof (cases r)
    case None
    with Cons.prems(1) a1 have "retry_loop e req as d1 st1 = (res, st')" by simp
    from Cons.IH [OF this as0] f show ?thesis by simp
  next
    case (Some x)
    with Cons.prems(1) a1 have "st' = st1" by simp
    with f show ?thesis by simp
  qed
qed

lemma analyze_page_attempts:
  assumes "analyze_page_with_gpt e st req = (res, st')"
  shows "attempts (trace st')
           = attempts (trace st)
               @ (if image_bytes req \<noteq> [] then [ApiCall (pdf_name req) (page_num req) 0]
                  else [])"
proof (cases "image_bytes req = []")
  case True
  with assms show ?thesis by (simp add: analyze_page_with_gpt_def)
next
  case False
  have u: "[0..<max_retries] = 0 # [1, 2]"
    by (simp add: max_retries_def upt_rec)
  from False assms have l: "retry_loop e req (0 # [1, 2]) 2 st = (res, st')"
    by (simp add: analyze_page_with_gpt_def u)
  obtain r d1 st1 where a1: "attempt_once e req 0 2 st = (r, d1, st1)"
    by (cases "attempt_once e req 0 2 st") auto
  have f: "attempts (trace st1)
             = attempts (trace st) @ [ApiCall (pdf_name req) (page_num req) 0]"
    using attempt_once_attempts [OF a1] by simp
  show ?thesis
  proof (cases r)
    case None
    with l a1 have "retry_loop e req [1, 2] d1 st1 = (res, st')" by simp
    from retry_loop_later_attempts [OF this] f False show ?thesis by simp
  next
    case (Some x)
    with l a1 have "st' = st1" by simp
    with f False show ?thesis by simp
  qed
qed

lemma process_pages_attempts:
  "process_pages e pdf dist rnd ns acc st = (Inr records, st') \<Longrightarrow>
     attempts (trace st') = attempts (trace st) @ concat (map (page_attempt pdf) ns)"
proof (induction ns arbitrary: acc st)
  case Nil
  then show ?case by simp
next
  case (Cons n ns)
  let ?st1 = "st\<lparr>trace := trace st @ [Extract (fst pdf) n]\<rparr>"
  obtain img tx where x: "extract_page_content (snd pdf) n = (img, tx)"
    by (cases "extract_page_content (snd pdf) n") auto
  let ?req = "\<lparr>image_bytes = img, text_content = tx, req_district = dist,
                req_round_num = rnd, pdf_name = path_name (fst pdf), page_num = n\<rparr>"
  obtain r st2 where a:
    "(if img \<noteq> [] then analyze_page_with_gpt e ?st1 ?req else (Inr [], ?st1)) = (r, st2)"
    by (cases "if img \<noteq> [] then analyze_page_with_gpt e ?st1 ?req else (Inr [], ?st1)") auto
  have f: "attempts (trace st2) = attempts (trace st) @ page_attempt pdf n"
  proof (cases "img = []")
    case True
    with a have "st2 = ?st1" by simp
    with True x show ?thesis by (simp add: page_attempt_def)
  next
    case False
    with a have "analyze_page_with_gpt e ?st1 ?req = (r, st2)" by simp
    from analyze_page_attempts [OF this] False x show ?thesis
      by (simp add: page_attempt_def)
  qed
  show ?case
  proof (cases r)
    case (Inl x1)
    with Cons.prems x a show ?thesis by (simp add: Let_def)
  next
    case (Inr recs)
    with Cons.prems x a have
      "process_pages e pdf dist rnd ns (acc @ recs)
         (st2\<lparr>pages_analyzed := pages_analyzed st2 + 1,
               trace := trace st2 @ [Sleep (3 / 2)]\<rparr>) = (Inr records, st')"
      by (simp add: Let_def)
    from Cons.IH [OF this] f show ?thesis by simp
  qed
qed

section \<open>A district with one invoice\<close>

text \<open>
  The district \<open>Lincoln\<close> with the round folder \<open>R1\<close> and one PDF of two pages. The
  service finds one record on the first page and none on the second. A second service
  answers every request with the interrupt of the user. A third file cannot be opened.
\<close>

definition page_request :: request where
  "page_request =
     \<lparr>image_bytes = ''png 1'', text_content = ''Reading Plus'', req_district = ''Lincoln'',
      req_round_num = ''1'', pdf_name = ''invoice.pdf'', page_num = 0\<rparr>"


definition reading_plus_reply :: string where
  \<open>reading_plus_reply =
     ''[{"software": "Reading Plus", "vendor": "Reading Plus Inc", "cost_total": "1200.00"}]''\<close>

definition lincoln_env :: env where
  "lincoln_env =
     \<lparr>api_post = (\<lambda>req attempt. if page_num req = 0 then Content reading_plus_reply
                                 else Content ''[]''),
      builtin_str = (\<lambda>v. ''<value>'')\<rparr>"

definition interrupt_env :: env where
  "interrupt_env =
     \<lparr>api_post = (\<lambda>req attempt. Interrupted), builtin_str = (\<lambda>v. ''<value>'')\<rparr>"

definition lincoln_pdf :: pdf_file where
  "lincoln_pdf =
     ([''RA_tasks_2025'', ''Lincoln'', ''R1'', ''invoice.pdf''],
      File ''invoice.pdf'' (Some [Some (''png 1'', ''Reading Plus''), Some (''png 2'', ''Terms'')]))"

definition reading_plus_record :: SoftwareRecord where
  "reading_plus_record =
     \<lparr>district = JStr ''Lincoln'', school_name = JStr [], approx_level = JStr [],
      software = JStr ''Reading Plus'', vendor = JStr ''Reading Plus Inc'', use_type = JStr [],
      host_type = JStr [], num_school_lic = JStr [], num_district_lic = JStr [],
      cost_per_lic = JStr [], cost_total = JStr ''1200.00'', contract_start_month = JStr [],
      contract_start_year = JStr [], contract_length_years = JStr [], install_month = JStr [],
      install_year = JStr [], quote_month = JStr [], quote_year = JStr [], misc_notes = JStr [],
      round' = JStr ''1'', source_file = JStr ''invoice.pdf'', page_number = JStr ''1''\<rparr>"

definition lincoln_done :: analyzer where
  "lincoln_done =
     \<lparr>districts_processed = 0, pdfs_processed = 1, pages_analyzed = 2,
      software_records_extracted = 1, api_calls_made = 2, errors_encountered = 0,
      processed_pdfs = {|''Lincoln/1/invoice.pdf''|},
      processed_pdfs_file = None, main_csv_file = None,
      trace = [Extract (fst lincoln_pdf) 0, ApiCall ''invoice.pdf'' 0 0, Sleep (3 / 2),
               Extract (fst lincoln_pdf) 1, ApiCall ''invoice.pdf'' 1 0, Sleep (3 / 2)]\<rparr>"

definition bad_pdf :: pdf_file where
  "bad_pdf = ([''RA_tasks_2025'', ''Lincoln'', ''R1'', ''bad.pdf''], File ''bad.pdf'' None)"

lemma lincoln_run:
  "process_pdf lincoln_env (new_analyzer None None) lincoln_pdf ''Lincoln'' ''1''
     = (Inr [reading_plus_record], lincoln_done)"
  by code_simp

lemma lincoln_interrupted:
  "fst (process_pdf interrupt_env (new_analyzer None None) lincoln_pdf ''Lincoln'' ''1'')
     = Inl KeyboardInterrupt"
  by code_simp

section \<open>Processing one PDF\<close>

text \<open>
  One call of \<open>process_pdf\<close>. A PDF whose identifier is in the processed set is skipped:
  the call returns the empty list and leaves the analyzer as it is, so no page is rendered
  or analyzed. If the identifier is in the set after a call that did not find it there,
  the document was opened, the call returned its records without an exception, and every
  page of the document was attempted in order and counted: each page was rendered, and
  each page whose rendering gave an image was sent to the service before the next page
  was rendered. A call that ends with an exception leaves the processed set and the
  tracker document as they were. No call adds another identifier than that of its file.
\<close>

lemma process_pdf_call_marks:
  "(is_pdf_already_processed st (fst pdf) dist rnd
      \<longrightarrow> process_pdf e st pdf dist rnd = (Inr [], st))
   \<and> (\<not> is_pdf_already_processed st (fst pdf) dist rnd
        \<and> is_pdf_already_processed (snd (process_pdf e st pdf dist rnd)) (fst pdf) dist rnd
      \<longrightarrow> (\<exists>doc records.
             fitz_open (snd pdf) = Some doc
             \<and> fst (process_pdf e st pdf dist rnd) = Inr records
             \<and> pages_analyzed (snd (process_pdf e st pdf dist rnd))
                 = pages_analyzed st + length doc
             \<and> extracted (trace (snd (process_pdf e st pdf dist rnd)))
                 = extracted (trace st) @ map (Pair (fst pdf)) [0..<length doc]
             \<and> attempts (trace (snd (process_pdf e st pdf dist rnd)))
                 = attempts (trace st) @ concat (map (page_attempt pdf) [0..<length doc])))
   \<and> (fst (process_pdf e st pdf dist rnd) = Inl x
      \<longrightarrow> processed_pdfs (snd (process_pdf e st pdf dist rnd)) = processed_pdfs st
          \<and> processed_pdfs_file (snd (process_pdf e st pdf dist rnd)) = processed_pdfs_file st)
   \<and> processed_pdfs (snd (process_pdf e st pdf dist rnd))
        |\<subseteq>| finsert (get_pdf_identifier (fst pdf) dist rnd) (processed_pdfs st)"
proof -
  have p1: "process_pdf e st pdf dist rnd = (Inr [], st)"
    if "is_pdf_already_processed st (fst pdf) dist rnd"
    using that by (simp add: process_pdf_def)
  have p2: "\<exists>doc records.
             fitz_open (snd pdf) = Some doc
             \<and> fst (process_pdf e st pdf dist rnd) = Inr records
             \<and> pages_analyzed (snd (process_pdf e st pdf dist rnd))
                 = pages_analyzed st + length doc
             \<and> extracted (trace (snd (process_pdf e st pdf dist rnd)))
                 = extracted (trace st) @ map (Pair (fst pdf)) [0..<length doc]
             \<and> attempts (trace (snd (process_pdf e st pdf dist rnd)))
                 = attempts (trace st) @ concat (map (page_attempt pdf) [0..<length doc])"
    if a: "\<not> is_pdf_already_processed st (fst pdf) dist rnd
    \<and> is_pdf_already_processed (snd (process_pdf e st pdf dist rnd)) (fst pdf) dist rnd"
  proof (cases "fitz_open (snd pdf)")
    case None
    with a show ?thesis
      by (auto simp: process_pdf_def is_pdf_already_processed_def)
  next
    case (Some doc)
    obtain r st1 where p: "process_pages e pdf dist rnd [0..<length doc] [] st = (r, st1)"
      by (cases "process_pages e pdf dist rnd [0..<length doc] [] st") auto
    note t = process_pages_tracker [OF p]
    show ?thesis
    proof (cases r)
      case (Inl x1)
      with a Some p t show ?thesis
        by (auto simp: process_pdf_def is_pdf_already_processed_def split: if_splits)
    next
      case (Inr records)
      with p have p': "process_pages e pdf dist rnd [0..<length doc] [] st = (Inr records, st1)"
        by simp
      note all = process_pages_all_attempted [OF p'] process_pages_attempts [OF p']
      have m: "pages_analyzed (mark_pdf_as_processed (st1\<lparr>pdfs_processed := pdfs_processed st1 + 1\<rparr>) (fst pdf) dist rnd) = pages_analyzed st1"
        "extracted (trace (mark_pdf_as_processed (st1\<lparr>pdfs_processed := pdfs_processed st1 + 1\<rparr>) (fst pdf) dist rnd)) = extracted (trace st1)"
        "attempts (trace (mark_pdf_as_processed (st1\<lparr>pdfs_processed := pdfs_processed st1 + 1\<rparr>) (fst pdf) dist rnd)) = attempts (trace st1)"
        by (simp_all add: mark_pdf_as_processed_def save_processed_pdfs_def Let_def)
      from a Some p' all m show ?thesis
        by (simp add: process_pdf_def)
    qed
  qed
  have p3: "processed_pdfs (snd (process_pdf e st pdf dist rnd)) = processed_pdfs st
          \<and> processed_pdfs_file (snd (process_pdf e st pdf dist rnd)) = processed_pdfs_file st"
    if a: "fst (process_pdf e st pdf dist rnd) = Inl x"
  proof (cases "is_pdf_already_processed st (fst pdf) dist rnd")
    case True
    then show ?thesis by (simp add: process_pdf_def)
  next
    case False
    show ?thesis
    proof (cases "fitz_open (snd pdf)")
      case None
      with False show ?thesis by (simp add: process_pdf_def)
    next
      case (Some doc)
      obtain r st1 where p: "process_pages e pdf dist rnd [0..<length doc] [] st = (r, st1)"
        by (cases "process_pages e pdf dist rnd [0..<length doc] [] st") auto
      note t = process_pages_tracker [OF p]
      from a False Some p t show ?thesis
        by (cases r) (auto simp: process_pdf_def split: if_splits)
    qed
  qed
  have p4: "processed_pdfs (snd (process_pdf e st pdf dist rnd))
        |\<subseteq>| finsert (get_pdf_identifier (fst pdf) dist rnd) (processed_pdfs st)"
  proof (cases "is_pdf_already_processed st (fst pdf) dist rnd")
    case True
    then show ?thesis by (auto simp: process_pdf_def)
  next
    case False
    show ?thesis
    proof (cases "fitz_open (snd pdf)")
      case None
      with False show ?thesis by (auto simp: process_pdf_def)
    next
      case (Some doc)
      obtain r st1 where p: "process_pages e pdf dist rnd [0..<length doc] [] st = (r, st1)"
        by (cases "process_pages e pdf dist rnd [0..<length doc] [] st") auto
      note t = process_pages_tracker [OF p]
      have m: "processed_pdfs (mark_pdf_as_processed (st1\<lparr>pdfs_processed := pdfs_processed st1 + 1\<rparr>) (fst pdf) dist rnd)
                 = finsert (get_pdf_identifier (fst pdf) dist rnd) (processed_pdfs st1)"
        by (simp add: mark_pdf_as_processed_def save_processed_pdfs_def Let_def)
      from False Some p t m show ?thesis
        by (cases r) (auto simp: process_pdf_def split: if_splits)
    qed
  qed
  from p1 p2 p3 p4 show ?thesis by blast
qed

lemma process_pdf_call_marks_example:
  "\<not> is_pdf_already_processed (new_analyzer None None) (fst lincoln_pdf) ''Lincoln'' ''1''
   \<and> is_pdf_already_processed lincoln_done (fst lincoln_pdf) ''Lincoln'' ''1''
   \<and> process_pdf lincoln_env (new_analyzer None None) lincoln_pdf ''Lincoln'' ''1''
       = (Inr [reading_plus_record], lincoln_done)
   \<and> extracted (trace lincoln_done) = [(fst lincoln_pdf, 0), (fst lincoln_pdf, 1)]
   \<and> attempts (trace lincoln_done)
       = [Extract (fst lincoln_pdf) 0, ApiCall ''invoice.pdf'' 0 0,
          Extract (fst lincoln_pdf) 1, ApiCall ''invoice.pdf'' 1 0]
   \<and> process_pdf lincoln_env lincoln_done lincoln_pdf ''Lincoln'' ''1'' = (Inr [], lincoln_done)
   \<and> fst (process_pdf interrupt_env (new_analyzer None None) lincoln_pdf ''Lincoln'' ''1'')
       = Inl KeyboardInterrupt
   \<and> processed_pdfs (snd (process_pdf interrupt_env (new_analyzer None None) lincoln_pdf
        ''Lincoln'' ''1'')) = {||}"
proof -
  have a: "\<not> is_pdf_already_processed (new_analyzer None None) (fst lincoln_pdf) ''Lincoln'' ''1''"
    by (simp add: is_pdf_already_processed_def new_analyzer_def load_processed_pdfs_def)
  have b: "is_pdf_already_processed lincoln_done (fst lincoln_pdf) ''Lincoln'' ''1''"
    by (simp add: is_pdf_already_processed_def lincoln_done_def lincoln_pdf_def
        get_pdf_identifier_def path_name_def)
  have c: "extracted (trace lincoln_done) = [(fst lincoln_pdf, 0), (fst lincoln_pdf, 1)]"
    "attempts (trace lincoln_done)
       = [Extract (fst lincoln_pdf) 0, ApiCall ''invoice.pdf'' 0 0,
          Extract (fst lincoln_pdf) 1, ApiCall ''invoice.pdf'' 1 0]"
    by (simp_all add: lincoln_done_def)
  have d: "processed_pdfs (new_analyzer None None) = {||}"
    by (simp add: new_analyzer_def load_processed_pdfs_def)
  show ?thesis
    using process_pdf_call_marks
        [of lincoln_done lincoln_pdf "''Lincoln''" "''1''" lincoln_env KeyboardInterrupt]
      process_pdf_call_marks
        [of "new_analyzer None None" lincoln_pdf "''Lincoln''" "''1''" interrupt_env
          KeyboardInterrupt]
      a b c d lincoln_run lincoln_interrupted
    by simp
qed

text \<open>
  A PDF that is not yet in the processed set and cannot be opened: \<open>process_pdf\<close> returns
  the empty list, counts one error and leaves the processed set and the tracker document
  as they are, so the next call on it tries to open it again.
\<close>

lemma process_pdf_call_unopenable:
  assumes "\<not> is_pdf_already_processed st (fst pdf) dist rnd"
    and "fitz_open (snd pdf) = None"
  shows "process_pdf e st pdf dist rnd
           = (Inr [], st\<lparr>errors_encountered := errors_encountered st + 1\<rparr>)
         \<and> processed_pdfs (snd (process_pdf e st pdf dist rnd)) = processed_pdfs st
         \<and> processed_pdfs_file (snd (process_pdf e st pdf dist rnd)) = processed_pdfs_file st
         \<and> \<not> is_pdf_already_processed (snd (process_pdf e st pdf dist rnd)) (fst pdf) dist rnd
         \<and> process_pdf e (snd (process_pdf e st pdf dist rnd)) pdf dist rnd
             = (Inr [], st\<lparr>errors_encountered := errors_encountered st + 2\<rparr>)"
  using assms by (simp add: process_pdf_def is_pdf_already_processed_def)

lemma process_pdf_call_unopenable_example:
  "\<not> is_pdf_already_processed (new_analyzer None None) (fst bad_pdf) ''Lincoln'' ''1''
   \<and> fitz_open (snd bad_pdf) = None
   \<and> process_pdf lincoln_env (new_analyzer None None) bad_pdf ''Lincoln'' ''1''
       = (Inr [], (new_analyzer None None)\<lparr>errors_encountered := 1\<rparr>)"
proof -
  have a: "\<not> is_pdf_already_processed (new_analyzer None None) (fst bad_pdf) ''Lincoln'' ''1''"
    by (simp add: is_pdf_already_processed_def new_analyzer_def load_processed_pdfs_def)
  have b: "fitz_open (snd bad_pdf) = None"
    by (simp add: bad_pdf_def)
  show ?thesis
    using process_pdf_call_unopenable [OF a b, of lincoln_env] a b
    by (simp add: new_analyzer_def)
qed

section \<open>Retry policy of the extraction client\<close>

text \<open>
  The class of one attempt: it succeeds, or fails in one of the three ways that the
  handlers of \<open>analyze_page_with_gpt\<close> tell apart (an exception raised while the
  recovered items are converted is caught by the handler of unexpected exceptions), or is
  cut by the interrupt of the user.
\<close>

datatype attempt_class =
  Succeeds | TransportFailure | MalformedResponse | UnexpectedError | UserInterrupt

definition classify :: "env \<Rightarrow> request \<Rightarrow> nat \<Rightarrow> attempt_class" where
  "classify e req attempt =
     (case api_post e req attempt of
        Interrupted \<Rightarrow> UserInterrupt
      | RequestFailed \<Rightarrow> TransportFailure
      | UnexpectedFailure \<Rightarrow> UnexpectedError
      | Content content \<Rightarrow>
          (case parse_json_with_recovery (clean_response content) of
             Inl x \<Rightarrow> MalformedResponse
           | Inr extracted_data \<Rightarrow>
               (case to_records e req extracted_data of
                  Inl x \<Rightarrow> UnexpectedError
                | Inr records \<Rightarrow> Succeeds)))"

definition is_failure :: "attempt_class \<Rightarrow> bool" where
  "is_failure c \<longleftrightarrow> c \<in> set [TransportFailure, MalformedResponse, UnexpectedError]"

definition backs_off :: "attempt_class \<Rightarrow> bool" where
  "backs_off c \<longleftrightarrow> c \<in> set [TransportFailure, UnexpectedError]"

text \<open>What one pass of the loop does, by the class of the attempt.\<close>

lemma attempt_once_summary:
  assumes "attempt_once e req a d st = (r, d', st')"
  shows "(r = None \<longleftrightarrow> is_failure (classify e req a) \<and> a \<noteq> max_retries - 1)"
    and "d' = (if backs_off (classify e req a) \<and> a \<noteq> max_retries - 1 then d * (3 / 2) else d)"
    and "sleeps (trace st') = sleeps (trace st)
           @ (if backs_off (classify e req a) \<and> a \<noteq> max_retries - 1 then [d] else [])"
    and "api_calls_made st' = api_calls_made st + 1"
    and "is_failure (classify e req a) \<Longrightarrow> a = max_retries - 1 \<Longrightarrow>
           r = Some (Inr []) \<and> errors_encountered st' = errors_encountered st + 1
           \<and> software_records_extracted st' = software_records_extracted st"
    and "is_failure (classify e req a) \<Longrightarrow> a \<noteq> max_retries - 1 \<Longrightarrow>
           errors_encountered st' = errors_encountered st
           \<and> software_records_extracted st' = software_records_extracted st"
    and "classify e req a = UserInterrupt \<Longrightarrow> r = Some (Inl KeyboardInterrupt)"
    and "classify e req a = Succeeds \<Longrightarrow> \<exists>records. r = Some (Inr records)"
  using assms
  by (auto simp: attempt_once_def last_attempt_or_retry_def classify_def is_failure_def
      backs_off_def Let_def
      split: api_outcome.splits sum.splits if_splits)

lemma upt_max_retries: "[0..<max_retries] = [0, 1, 2]"
  by (simp add: max_retries_def upt_rec)

text \<open>
  A service that fails in each of the three ways: the transport at the first attempt, a
  reply that is no JSON at the second, and a JSON list of numbers at the third.
\<close>

definition failing_env :: env where
  "failing_env =
     \<lparr>api_post = (\<lambda>req attempt.
         if attempt = 0 then RequestFailed
         else if attempt = 1 then Content ''The page lists no software.''
         else Content ''[1, 2]''),
      builtin_str = (\<lambda>v. ''<value>'')\<rparr>"

text \<open>A service whose reply is never JSON, and one that is never reached.\<close>

definition malformed_env :: env where
  "malformed_env =
     \<lparr>api_post = (\<lambda>req attempt. Content ''The page lists no software.''),
      builtin_str = (\<lambda>v. ''<value>'')\<rparr>"

definition unreachable_env :: env where
  "unreachable_env =
     \<lparr>api_post = (\<lambda>req attempt. RequestFailed), builtin_str = (\<lambda>v. ''<value>'')\<rparr>"

lemma failing_env_classes:
  "classify failing_env page_request 0 = TransportFailure"
  "classify failing_env page_request 1 = MalformedResponse"
  "classify failing_env page_request 2 = UnexpectedError"
  "classify failing_env page_request (Suc 0) = MalformedResponse"
  by code_simp+

text \<open>
  C7. When all three attempts fail, each in any of the three failure classes,
  \<open>analyze_page_with_gpt\<close> returns the empty list, no exception leaves it, the error
  counter has gone up by exactly one, and three requests were made.
\<close>

theorem analyze_page_terminal_degrade:
  assumes "image_bytes req \<noteq> []"
    and "is_failure (classify e req 0)"
    and "is_failure (classify e req 1)"
    and "is_failure (classify e req 2)"
  shows "fst (analyze_page_with_gpt e st req) = Inr []
         \<and> errors_encountered (snd (analyze_page_with_gpt e st req)) = errors_encountered st + 1
         \<and> api_calls_made (snd (analyze_page_with_gpt e st req)) = api_calls_made st + 3
         \<and> software_records_extracted (snd (analyze_page_with_gpt e st req))
             = software_records_extracted st"
proof -
  obtain r0 d0 s0 where a0: "attempt_once e req 0 2 st = (r0, d0, s0)"
    by (cases "attempt_once e req 0 2 st") auto
  obtain r1 d1 s1 where a1: "attempt_once e req 1 d0 s0 = (r1, d1, s1)"
    by (cases "attempt_once e req 1 d0 s0") auto
  obtain r2 d2 s2 where a2: "attempt_once e req 2 d1 s1 = (r2, d2, s2)"
    by (cases "attempt_once e req 2 d1 s1") auto
  note f0 = attempt_once_summary [OF a0] and f1 = attempt_once_summary [OF a1]
    and f2 = attempt_once_summary [OF a2]
  have m: "(2::nat) = max_retries - 1" "(0::nat) \<noteq> max_retries - 1" "(1::nat) \<noteq> max_retries - 1"
    by (simp_all add: max_retries_def)
  have n0: "r0 = None" using f0(1) assms(2) m(2) by blast
  have n1: "r1 = None" using f1(1) assms(3) m(3) by blast
  note l2 = f2(5) [OF assms(4) m(1)]
  note c0 = f0(6) [OF assms(2) m(2)]
  note c1 = f1(6) [OF assms(3) m(3)]
  have "analyze_page_with_gpt e st req = (Inr [], s2)"
    using assms(1) a0 a1 a2 n0 n1 l2
    by (simp add: analyze_page_with_gpt_def upt_max_retries)
  with l2 c0 c1 f0(4) f1(4) f2(4) show ?thesis by simp
qed

theorem analyze_page_terminal_degrade_witness:
  "image_bytes page_request \<noteq> []
   \<and> is_failure (classify failing_env page_request 0)
   \<and> is_failure (classify failing_env page_request 1)
   \<and> is_failure (classify failing_env page_request 2)
   \<and> fst (analyze_page_with_gpt failing_env (new_analyzer None None) page_request) = Inr []
   \<and> errors_encountered (snd (analyze_page_with_gpt failing_env (new_analyzer None None)
         page_request)) = 1"
proof -
  have i: "image_bytes page_request \<noteq> []" by (simp add: page_request_def)
  have f: "is_failure (classify failing_env page_request 0)"
    "is_failure (classify failing_env page_request 1)"
    "is_failure (classify failing_env page_request 2)"
    by (simp_all add: failing_env_classes is_failure_def)
  show ?thesis
    using analyze_page_terminal_degrade [OF i f, of "new_analyzer None None"] i f
    by (simp add: new_analyzer_def)
qed

text \<open>
  The sleeps of the retry policy as the amended claim words them: a failed attempt that is
  followed by another one sleeps for the current delay and raises it by the factor 1.5,
  unless the failure is a malformed response, which is retried at once.
\<close>

fun backoff_sleeps :: "rat \<Rightarrow> attempt_class list \<Rightarrow> rat list" where
  "backoff_sleeps d [] = []"
| "backoff_sleeps d (c # cs) =
     (if backs_off c then d # backoff_sleeps (d * (3 / 2)) cs else backoff_sleeps d cs)"

text \<open>The failed attempts that are followed by another attempt.\<close>

definition retried :: "env \<Rightarrow> request \<Rightarrow> attempt_class list" where
  "retried e req = takeWhile is_failure [classify e req 0, classify e req 1]"

text \<open>
  C3, as amended. \<open>analyze_page_with_gpt\<close> makes at most 3 attempts. A transport or HTTP
  failure and an unexpected exception that are followed by another attempt sleep for the
  current delay, which starts at 2 seconds and is multiplied by 1.5 after each such sleep;
  a malformed-JSON response is retried at once, without a sleep and without a change of
  the delay.
\<close>

theorem analyze_page_backoff:
  assumes "image_bytes req \<noteq> []"
  shows "sleeps (trace (snd (analyze_page_with_gpt e st req)))
           = sleeps (trace st) @ backoff_sleeps 2 (retried e req)
         \<and> api_calls_made (snd (analyze_page_with_gpt e st req))
           = api_calls_made st + min 3 (Suc (length (retried e req)))"
proof -
  obtain r0 d0 s0 where a0: "attempt_once e req 0 2 st = (r0, d0, s0)"
    by (cases "attempt_once e req 0 2 st") auto
  obtain r1 d1 s1 where a1: "attempt_once e req 1 d0 s0 = (r1, d1, s1)"
    by (cases "attempt_once e req 1 d0 s0") auto
  obtain r2 d2 s2 where a2: "attempt_once e req 2 d1 s1 = (r2, d2, s2)"
    by (cases "attempt_once e req 2 d1 s1") auto
  note f0 = attempt_once_summary(1-4) [OF a0] and f1 = attempt_once_summary(1-4) [OF a1]
    and f2 = attempt_once_summary(1-4) [OF a2]
  have r2: "r2 \<noteq> None" using f2(1) by (simp add: max_retries_def)
  show ?thesis
  proof (cases "is_failure (classify e req 0)")
    case False
    then have "r0 \<noteq> None" using f0(1) by simp
    then obtain x where "r0 = Some x" by auto
    with a0 assms have "analyze_page_with_gpt e st req = (x, s0)"
      by (simp add: analyze_page_with_gpt_def upt_max_retries)
    moreover from False have "\<not> backs_off (classify e req 0)"
      by (auto simp: is_failure_def backs_off_def)
    ultimately show ?thesis using False f0(3,4) by (simp add: retried_def)
  next
    case t0: True
    then have n0: "r0 = None" using f0(1) by (simp add: max_retries_def)
    show ?thesis
    proof (cases "is_failure (classify e req 1)")
      case False
      then have "r1 \<noteq> None" using f1(1) by simp
      then obtain x where "r1 = Some x" by auto
      with a0 a1 n0 assms have "analyze_page_with_gpt e st req = (x, s1)"
        by (simp add: analyze_page_with_gpt_def upt_max_retries)
      moreover from False have "\<not> backs_off (classify e req 1)"
        by (auto simp: is_failure_def backs_off_def)
      ultimately show ?thesis using False t0 f0(3,4) f1(3,4)
        by (simp add: retried_def max_retries_def)
    next
      case t1: True
      then have n1: "r1 = None" using f1(1) by (simp add: max_retries_def)
      from r2 obtain x where "r2 = Some x" by auto
      with a0 a1 a2 n0 n1 assms have "analyze_page_with_gpt e st req = (x, s2)"
        by (simp add: analyze_page_with_gpt_def upt_max_retries)
      then show ?thesis using t0 t1 f0(2,3,4) f1(2,3,4) f2(3,4)
        by (simp add: retried_def max_retries_def)
    qed
  qed
qed

theorem analyze_page_backoff_witness:
  "image_bytes page_request \<noteq> []
   \<and> sleeps (trace (snd (analyze_page_with_gpt failing_env (new_analyzer None None)
        page_request))) = [2]
   \<and> api_calls_made (snd (analyze_page_with_gpt failing_env (new_analyzer None None)
        page_request)) = 3"
proof -
  have i: "image_bytes page_request \<noteq> []" by (simp add: page_request_def)
  have r: "retried failing_env page_request = [TransportFailure, MalformedResponse]"
    by (simp add: retried_def failing_env_classes is_failure_def)
  show ?thesis
    using analyze_page_backoff [OF i, of failing_env "new_analyzer None None"] i
    by (simp add: r backs_off_def new_analyzer_def)
qed

text \<open>
  C3, as stated, fails: three malformed replies are retried without any sleep, while three
  transport failures sleep 2 and 3 seconds between the attempts.
\<close>

theorem retry_not_uniform_counterexample:
  "classify malformed_env page_request 0 = MalformedResponse
   \<and> classify malformed_env page_request 1 = MalformedResponse
   \<and> classify malformed_env page_request 2 = MalformedResponse
   \<and> trace (snd (analyze_page_with_gpt malformed_env (new_analyzer None None) page_request))
       = [ApiCall ''invoice.pdf'' 0 0, ApiCall ''invoice.pdf'' 0 1, ApiCall ''invoice.pdf'' 0 2]
   \<and> trace (snd (analyze_page_with_gpt unreachable_env (new_analyzer None None) page_request))
       = [ApiCall ''invoice.pdf'' 0 0, Sleep 2, ApiCall ''invoice.pdf'' 0 1, Sleep 3,
          ApiCall ''invoice.pdf'' 0 2]"
  by code_simp

section \<open>Fields of a record\<close>

text \<open>\<open>SoftwareRecord.to_dict\<close>: the columns of the detailed table.\<close>

definition to_dict :: "SoftwareRecord \<Rightarrow> (string \<times> json) list" where
  "to_dict r =
     [(''District'', district r), (''School_Name'', school_name r),
      (''Approx_Level'', approx_level r), (''Software'', software r), (''Vendor'', vendor r),
      (''Use_Type'', use_type r), (''Host_Type'', host_type r),
      (''Num_School_LIC'', num_school_lic r), (''Num_District_LIC'', num_district_lic r),
      (''Cost_per_LIC'', cost_per_lic r), (''Cost_total'', cost_total r),
      (''Contract_StartMonth'', contract_start_month r),
      (''Contract_StartYear'', contract_start_year r),
      (''Contract_Length_Years'', contract_length_years r),
      (''Install_Month'', install_month r), (''Install_Year'', install_year r),
      (''Quote_Month'', quote_month r), (''Quote_Year'', quote_year r),
      (''Misc_Notes'', misc_notes r), (''Round'', round' r),
      (''Source_File'', source_file r), (''Page_Number'', page_number r)]"

fun is_str :: "json \<Rightarrow> bool" where
  "is_str (JStr s) = True"
| "is_str v = False"

text \<open>
  The columns that the client fills from the arguments of the call and those it passes
  through \<open>str\<close> (license counts, costs, years, contract length); the columns it takes
  from the dictionary as they are, each with its key; the column of the notes.
\<close>

definition string_columns :: "string list" where
  "string_columns =
     [''District'', ''Round'', ''Source_File'', ''Page_Number'',
      ''Num_School_LIC'', ''Num_District_LIC'', ''Cost_per_LIC'', ''Cost_total'',
      ''Contract_StartYear'', ''Contract_Length_Years'', ''Install_Year'', ''Quote_Year'']"

definition numeric_keys :: "(string \<times> string) list" where
  "numeric_keys =
     [(''Num_School_LIC'', ''num_school_lic''), (''Num_District_LIC'', ''num_district_lic''),
      (''Cost_per_LIC'', ''cost_per_lic''), (''Cost_total'', ''cost_total''),
      (''Contract_StartYear'', ''contract_start_year''),
      (''Contract_Length_Years'', ''contract_length_years''),
      (''Install_Year'', ''install_year''), (''Quote_Year'', ''quote_year'')]"

definition text_keys :: "(string \<times> string) list" where
  "text_keys =
     [(''School_Name'', ''school_name''), (''Approx_Level'', ''approx_level''),
      (''Software'', ''software''), (''Vendor'', ''vendor''), (''Use_Type'', ''use_type''),
      (''Host_Type'', ''host_type''), (''Contract_StartMonth'', ''contract_start_month''),
      (''Install_Month'', ''install_month''), (''Quote_Month'', ''quote_month'')]"

lemma map_of_dict_set:
  "map_of (dict_set k v kvs) k' = (if k' = k then Some v else map_of kvs k')"
  by (induction kvs) auto

lemma dict_get_dict_set:
  "dict_get (dict_set k v kvs) k' d = (if k' = k then v else dict_get kvs k' d)"
  by (simp add: dict_get_def map_of_dict_set)

lemma dict_get_missing: "map_of kvs k = None \<Longrightarrow> dict_get kvs k d = d"
  by (simp add: dict_get_def)

lemma dict_get_present: "map_of kvs k = Some v \<Longrightarrow> dict_get kvs k d = v"
  by (simp add: dict_get_def)

lemma dict_get_is_str:
  "list_all (\<lambda>kv. is_str (snd kv)) kvs \<Longrightarrow> is_str d \<Longrightarrow> is_str (dict_get kvs k d)"
  by (induction kvs) (auto simp: dict_get_def)

lemma software_record_of_dict:
  "\<exists>r. software_record_of e req (JObj kvs) = Inr r"
  by (simp add: software_record_of_def)

text \<open>
  C9, as amended. In every record built from a recovered dictionary, the fields filled
  from the arguments of the call and the numeric fields (license counts, costs, years,
  contract length) are strings: a numeric field is the text that \<open>str\<close> gives for the
  value of the dictionary, or for the empty string when the key is missing. A numeric or
  text field whose key is missing from the dictionary is the empty string; a text field
  whose key is in the dictionary holds the value of the dictionary as it is. The notes:
  when the text of the contract year is not empty and does not fit the round, they are the
  text of the dictionary's notes (the empty string when the key is missing) followed by
  \<open> [Year-Round mismatch noted]\<close>, stripped of white space at both ends; otherwise they
  hold the value of the dictionary as it is, and the empty string when the key is missing.
  When all values of the dictionary are strings, so are all fields of the record.
\<close>

theorem software_record_fields:
  assumes "software_record_of e req (JObj kvs) = Inr r"
  shows "list_all (\<lambda>col. \<exists>s. map_of (to_dict r) col = Some (JStr s)) string_columns
    \<and> list_all (\<lambda>(col, k). map_of (to_dict r) col
                              = Some (JStr (py_str e (dict_get kvs k (JStr [])))))
         numeric_keys
    \<and> list_all (\<lambda>(col, k). map_of kvs k = None \<longrightarrow> map_of (to_dict r) col = Some (JStr []))
         (numeric_keys @ text_keys)
    \<and> list_all (\<lambda>(col, k). \<forall>v. map_of kvs k = Some v \<longrightarrow> map_of (to_dict r) col = Some v)
         text_keys
    \<and> (let contract_year = py_str e (dict_get kvs ''contract_start_year'' (JStr []));
            notes = dict_get kvs ''misc_notes'' (JStr [])
        in map_of (to_dict r) ''Misc_Notes''
             = Some (if contract_year \<noteq> []
                        \<and> \<not> validate_round_year (req_round_num req) contract_year
                     then JStr (strip (py_str e notes @ '' [Year-Round mismatch noted]''))
                     else notes)
           \<and> (map_of kvs ''misc_notes'' = None \<longrightarrow> notes = JStr []))
    \<and> (list_all (\<lambda>kv. is_str (snd kv)) kvs \<longrightarrow> list_all (\<lambda>cv. is_str (snd cv)) (to_dict r))"
proof -
  let ?item1 = "note_mismatch e req kvs"
  let ?year = "py_str e (dict_get kvs ''contract_start_year'' (JStr []))"
  let ?notes = "dict_get kvs ''misc_notes'' (JStr [])"
  have g: "dict_get ?item1 k d = dict_get kvs k d" if "k \<noteq> ''misc_notes''" for k d
    using that by (simp add: note_mismatch_def Let_def dict_get_dict_set)
  have m: "dict_get ?item1 ''misc_notes'' (JStr [])
             = (if ?year \<noteq> [] \<and> \<not> validate_round_year (req_round_num req) ?year
                then JStr (strip (py_str e ?notes @ '' [Year-Round mismatch noted]''))
                else ?notes)"
    by (simp add: note_mismatch_def Let_def dict_get_dict_set)
  have ms: "is_str (dict_get ?item1 ''misc_notes'' (JStr []))"
    if "list_all (\<lambda>kv. is_str (snd kv)) kvs"
    using that by (simp add: m dict_get_is_str)
  have r: "r = record_of_item e req ?item1"
    using assms by (simp add: software_record_of_def)
  note r = r [unfolded record_of_item_def]
  have p1: "list_all (\<lambda>col. \<exists>s. map_of (to_dict r) col = Some (JStr s)) string_columns"
    by (simp add: r to_dict_def string_columns_def)
  have p2: "list_all (\<lambda>(col, k). map_of (to_dict r) col
                              = Some (JStr (py_str e (dict_get kvs k (JStr [])))))
         numeric_keys"
    by (simp add: r to_dict_def numeric_keys_def g)
  have e: "py_str e (JStr []) = []" by (simp add: py_str_def)
  have p3: "list_all (\<lambda>(col, k). map_of kvs k = None \<longrightarrow> map_of (to_dict r) col = Some (JStr []))
         (numeric_keys @ text_keys)"
    by (simp add: r to_dict_def numeric_keys_def text_keys_def g dict_get_missing e)
  have p4: "list_all (\<lambda>(col, k). \<forall>v. map_of kvs k = Some v \<longrightarrow> map_of (to_dict r) col = Some v)
         text_keys"
    by (simp add: r to_dict_def text_keys_def g dict_get_present)
  have n: "map_of (to_dict r) ''Misc_Notes'' = Some (dict_get ?item1 ''misc_notes'' (JStr []))"
    by (simp add: r to_dict_def)
  have p5: "map_of (to_dict r) ''Misc_Notes''
             = Some (if ?year \<noteq> [] \<and> \<not> validate_round_year (req_round_num req) ?year
                     then JStr (strip (py_str e ?notes @ '' [Year-Round mismatch noted]''))
                     else ?notes)"
    by (simp only: n m)
  have p6: "?notes = JStr []" if "map_of kvs ''misc_notes'' = None"
    using that by (rule dict_get_missing)
  have p7: "list_all (\<lambda>cv. is_str (snd cv)) (to_dict r)"
    if "list_all (\<lambda>kv. is_str (snd kv)) kvs"
    using that ms by (simp add: r to_dict_def g dict_get_is_str)
  from p1 p2 p3 p4 p5 p6 p7 show ?thesis unfolding Let_def by blast
qed

text \<open>
  Two dictionaries for a page of round 1: a contract year of round 3, which is noted, and a
  contract year of round 1, which leaves the missing notes empty.
\<close>

theorem software_record_fields_witness:
  "software_record_of lincoln_env page_request
     (JObj [(''software'', JStr ''Reading Plus''), (''contract_start_year'', JStr ''2019'')])
     = Inr (reading_plus_record\<lparr>vendor := JStr [], cost_total := JStr [],
             contract_start_year := JStr ''2019'',
             misc_notes := JStr ''[Year-Round mismatch noted]''\<rparr>)
   \<and> list_all (\<lambda>cv. is_str (snd cv))
        (to_dict (reading_plus_record\<lparr>vendor := JStr [], cost_total := JStr [],
             contract_start_year := JStr ''2019'',
             misc_notes := JStr ''[Year-Round mismatch noted]''\<rparr>))
   \<and> software_record_of lincoln_env page_request
        (JObj [(''software'', JStr ''Reading Plus''), (''contract_start_year'', JStr ''2016'')])
     = Inr (reading_plus_record\<lparr>vendor := JStr [], cost_total := JStr [],
             contract_start_year := JStr ''2016''\<rparr>)
   \<and> map_of (to_dict (reading_plus_record\<lparr>vendor := JStr [], cost_total := JStr [],
             contract_start_year := JStr ''2016''\<rparr>)) ''Misc_Notes'' = Some (JStr [])"
proof -
  have a: "software_record_of lincoln_env page_request
     (JObj [(''software'', JStr ''Reading Plus''), (''contract_start_year'', JStr ''2019'')])
     = Inr (reading_plus_record\<lparr>vendor := JStr [], cost_total := JStr [],
             contract_start_year := JStr ''2019'',
             misc_notes := JStr ''[Year-Round mismatch noted]''\<rparr>)"
    by code_simp
  have b: "software_record_of lincoln_env page_request
        (JObj [(''software'', JStr ''Reading Plus''), (''contract_start_year'', JStr ''2016'')])
     = Inr (reading_plus_record\<lparr>vendor := JStr [], cost_total := JStr [],
             contract_start_year := JStr ''2016''\<rparr>)"
    by code_simp
  show ?thesis
    using software_record_fields [OF a] software_record_fields [OF b] a b
    by (simp add: to_dict_def reading_plus_record_def)
qed

text \<open>
  C9, as stated, fails: a dictionary with \<open>null\<close> for \<open>software\<close> gives a record whose
  field \<open>software\<close> is \<open>None\<close>, not a string.
\<close>

theorem record_field_null_counterexample:
  \<open>parse_json_with_recovery ''[{"software": null, "cost_total": 1200}]''
     = Inr (JArr [JObj [(''software'', JNull), (''cost_total'', JNum ''1200'')]])
   \<and> to_records lincoln_env page_request
       (JArr [JObj [(''software'', JNull), (''cost_total'', JNum ''1200'')]])
     = Inr [reading_plus_record\<lparr>software := JNull, vendor := JStr [],
              cost_total := JStr ''1200''\<rparr>]\<close>
  by code_simp

section \<open>Serialized records\<close>

text \<open>
  \<open>json.dumps\<close> with its default arguments on a list of record dictionaries, whose keys
  and values are strings. A character outside the printable ASCII range is written as an
  escape.
\<close>

definition hex_digit :: "nat \<Rightarrow> char" where
  "hex_digit n = ''0123456789abcdef'' ! n"

definition ESCAPE_DCT :: "(char \<times> string) list" where
  "ESCAPE_DCT =
     [(CHR 0x5C, [CHR 0x5C, CHR 0x5C]), (CHR 0x22, [CHR 0x5C, CHR 0x22]),
      (CHR 0x08, [CHR 0x5C, CHR ''b'']), (CHR 0x0C, [CHR 0x5C, CHR ''f'']),
      (CHR 0x0A, [CHR 0x5C, CHR ''n'']), (CHR 0x0D, [CHR 0x5C, CHR ''r'']),
      (CHR 0x09, [CHR 0x5C, CHR ''t''])]"

definition escape_char :: "char \<Rightarrow> string" where
  "escape_char c =
     (case map_of ESCAPE_DCT c of
        Some esc \<Rightarrow> esc
      | None \<Rightarrow>
          (let n = (of_char c :: nat)
           in if 0x20 \<le> n \<and> n \<le> 0x7E then [c]
              else [CHR 0x5C, CHR ''u'', CHR ''0'', CHR ''0'',
                    hex_digit (n div 16), hex_digit (n mod 16)]))"

definition escaped :: "string \<Rightarrow> string" where
  "escaped s = concat (map escape_char s)"

definition encode_basestring_ascii :: "string \<Rightarrow> string" where
  "encode_basestring_ascii s = CHR 0x22 # escaped s @ [CHR 0x22]"

text \<open>\<open>sep.join(xs)\<close>.\<close>

fun join :: "string \<Rightarrow> string list \<Rightarrow> string" where
  "join sep [] = []"
| "join sep (x # xs) = x @ concat (map (\<lambda>y. sep @ y) xs)"

type_synonym record_dict = "(string \<times> string) list"

definition dumps_item :: "string \<times> string \<Rightarrow> string" where
  "dumps_item kv = encode_basestring_ascii (fst kv) @ '': '' @ encode_basestring_ascii (snd kv)"

definition dumps_record :: "record_dict \<Rightarrow> string" where
  "dumps_record r = ''{'' @ join '', '' (map dumps_item r) @ ''}''"

definition json_dumps :: "record_dict list \<Rightarrow> string" where
  "json_dumps rs = ''['' @ join '', '' (map dumps_record rs) @ '']''"

text \<open>The Python value of a record dictionary and of a list of them.\<close>

definition value_of_record :: "record_dict \<Rightarrow> json" where
  "value_of_record r = JObj (map (\<lambda>kv. (fst kv, JStr (snd kv))) r)"

definition value_of_records :: "record_dict list \<Rightarrow> json" where
  "value_of_records rs = JArr (map value_of_record rs)"

text \<open>A dictionary has every key once.\<close>

definition valid_records :: "record_dict list \<Rightarrow> bool" where
  "valid_records rs \<longleftrightarrow> list_all (\<lambda>r. distinct (map fst r)) rs"


subsection \<open>Strings\<close>

lemma hex_digit_ok: "n < 16 \<Longrightarrow> is_hex (hex_digit n) \<and> hex_val (hex_digit n) = n"
proof -
  have "\<forall>n \<in> set [0..<16]. is_hex (hex_digit n) \<and> hex_val (hex_digit n) = n"
    by code_simp
  then show "n < 16 \<Longrightarrow> is_hex (hex_digit n) \<and> hex_val (hex_digit n) = n"
    by simp
qed

lemma decode_u00:
  assumes "n < 256"
  shows "decode_uXXXX (CHR ''0'' # CHR ''0'' # hex_digit (n div 16) # hex_digit (n mod 16) # rest)
           = Some n"
proof -
  have a: "n div 16 < 16" "n mod 16 < 16" using assms by simp_all
  have z: "is_hex (CHR ''0'')" "hex_val (CHR ''0'') = 0"
    by (simp_all add: is_hex_def hex_val_def)
  show ?thesis
    using hex_digit_ok [OF a(1)] hex_digit_ok [OF a(2)] z
    by (simp add: decode_uXXXX_def)
qed

lemma scan_escape_u00:
  "scan_escape (CHR ''u'' # CHR ''0'' # CHR ''0'' # hex_digit (of_char c div 16)
      # hex_digit (of_char c mod 16) # rest) = Some (c, rest)"
proof -
  have n: "(of_char c :: nat) < 256" by simp
  then have h: "\<not> 0xD800 \<le> (of_char c :: nat)" by linarith
  show ?thesis
    using decode_u00 [OF n, of rest] n h
    by (simp add: scan_escape_def chr_latin1_def)
qed

lemma scanstring_escape_char:
  "scanstring acc (escape_char c @ rest) = scanstring (acc @ [c]) rest"
proof (cases "map_of ESCAPE_DCT c")
  case (Some esc)
  then consider "c = CHR 0x5C" | "c = CHR 0x22" | "c = CHR 0x08" | "c = CHR 0x0C"
    | "c = CHR 0x0A" | "c = CHR 0x0D" | "c = CHR 0x09"
    by (auto simp: ESCAPE_DCT_def split: if_splits)
  then show ?thesis
    by cases (simp_all add: escape_char_def ESCAPE_DCT_def scan_escape_def BACKSLASH_def)
next
  case None
  then have ne: "c \<noteq> CHR 0x5C" "c \<noteq> CHR 0x22"
    by (auto simp: ESCAPE_DCT_def split: if_splits)
  show ?thesis
  proof (cases "0x20 \<le> (of_char c :: nat) \<and> (of_char c :: nat) \<le> 0x7E")
    case True
    with None have e: "escape_char c = [c]" by (simp add: escape_char_def Let_def)
    from True have "\<not> (of_char c :: nat) < 0x20" by linarith
    with ne show ?thesis by (simp add: e)
  next
    case False
    with None have e: "escape_char c = [CHR 0x5C, CHR ''u'', CHR ''0'', CHR ''0'',
        hex_digit (of_char c div 16), hex_digit (of_char c mod 16)]"
      by (simp add: escape_char_def Let_def)
    show ?thesis by (simp add: e scan_escape_u00)
  qed
qed

lemma scanstring_escaped:
  "scanstring acc (escaped s @ CHR 0x22 # rest) = Some (acc @ s, rest)"
proof (induction s arbitrary: acc)
  case Nil
  show ?case by (simp add: escaped_def)
next
  case (Cons c s)
  have "scanstring acc (escaped (c # s) @ CHR 0x22 # rest)
          = scanstring acc (escape_char c @ (escaped s @ CHR 0x22 # rest))"
    by (simp add: escaped_def)
  also have "\<dots> = scanstring (acc @ [c]) (escaped s @ CHR 0x22 # rest)"
    by (rule scanstring_escape_char)
  also have "\<dots> = Some ((acc @ [c]) @ s, rest)"
    by (rule Cons.IH)
  finally show ?case by simp
qed

lemma scan_once_string:
  "scan_once (encode_basestring_ascii s @ rest) = Some (JStr s, rest)"
  using scanstring_escaped [of "[]" s rest]
  by (simp add: encode_basestring_ascii_def)

subsection \<open>Objects and arrays\<close>

text \<open>
  What the decoder does behind an item of an object and behind an element of an array.
\<close>

definition object_end :: "(string \<times> json) list \<Rightarrow> string \<Rightarrow> (json \<times> string) option" where
  "object_end pairs rest1 =
     (case skip_ws rest1 of
        [] \<Rightarrow> None
      | d1 # ds1 \<Rightarrow>
          if d1 = CHR ''}'' then Some (JObj pairs, ds1)
          else if d1 = CHR '','' then
            (case skip_ws ds1 of
               [] \<Rightarrow> None
             | d2 # ds2 \<Rightarrow> if d2 = CHR 0x22 then JSONObject pairs ds2 else None)
          else None)"

definition array_end :: "json list \<Rightarrow> string \<Rightarrow> (json \<times> string) option" where
  "array_end vals rest1 =
     (case skip_ws rest1 of
        [] \<Rightarrow> None
      | d # ds \<Rightarrow>
          if d = CHR '']'' then Some (JArr vals, ds)
          else if d = CHR '','' then JSONArray vals (skip_ws ds)
          else None)"

lemma skip_ws_simps [simp]:
  "skip_ws [] = []"
  "skip_ws (CHR '' '' # cs) = skip_ws cs"
  "skip_ws (CHR 0x22 # cs) = CHR 0x22 # cs"
  "skip_ws (CHR '':'' # cs) = CHR '':'' # cs"
  "skip_ws (CHR '','' # cs) = CHR '','' # cs"
  "skip_ws (CHR ''{'' # cs) = CHR ''{'' # cs"
  "skip_ws (CHR ''}'' # cs) = CHR ''}'' # cs"
  "skip_ws (CHR ''['' # cs) = CHR ''['' # cs"
  "skip_ws (CHR '']'' # cs) = CHR '']'' # cs"
  by (simp_all add: skip_ws_def json_ws_def)

lemma skip_ws_encode [simp]:
  "skip_ws (encode_basestring_ascii s @ cs) = encode_basestring_ascii s @ cs"
  by (simp add: encode_basestring_ascii_def)

lemma JSONObject_item:
  "JSONObject pairs (escaped k @ CHR 0x22 # '': '' @ encode_basestring_ascii v @ rest1)
     = object_end (dict_set k (JStr v) pairs) rest1"
proof -
  have s: "scanstring []
             (escaped k @ CHR 0x22 # CHR '':'' # CHR '' '' # encode_basestring_ascii v @ rest1)
             = Some (k, CHR '':'' # CHR '' '' # encode_basestring_ascii v @ rest1)"
    using scanstring_escaped [of "[]" k "'': '' @ encode_basestring_ascii v @ rest1"] by simp
  have v: "scan_once (encode_basestring_ascii v @ rest1) = Some (JStr v, rest1)"
    by (rule scan_once_string)
  show ?thesis
    by (subst JSONObject.simps) (simp add: s v object_end_def del: JSONObject.simps)
qed

lemma JSONArray_element:
  assumes "scan_once cs = Some (v, rest1)" and "length rest1 < length cs"
  shows "JSONArray vals cs = array_end (vals @ [v]) rest1"
  by (subst JSONArray.simps) (simp add: assms array_end_def del: JSONArray.simps)

lemma JSONArray_no_element: "scan_once cs = None \<Longrightarrow> JSONArray vals cs = None"
  by (subst JSONArray.simps) simp

lemma join_Cons2: "join sep (x # y # ys) = x @ sep @ join sep (y # ys)"
  by simp

lemma dumps_item_quote:
  "dumps_item kv = CHR 0x22 # escaped (fst kv) @ CHR 0x22 # '': '' @ encode_basestring_ascii (snd kv)"
  by (simp add: dumps_item_def encode_basestring_ascii_def)

text \<open>The items of a record behind the opening quote of the first key.\<close>

definition items_tail :: "record_dict \<Rightarrow> string" where
  "items_tail r = tl (join '', '' (map dumps_item r))"

lemma join_items: "r \<noteq> [] \<Longrightarrow> join '', '' (map dumps_item r) = CHR 0x22 # items_tail r"
  by (cases r) (simp_all add: items_tail_def dumps_item_quote)

lemma items_tail_single:
  "items_tail [kv] = escaped (fst kv) @ CHR 0x22 # '': '' @ encode_basestring_ascii (snd kv)"
  by (simp add: items_tail_def dumps_item_quote)

lemma items_tail_Cons2:
  "items_tail (kv # kv' # r)
     = escaped (fst kv) @ CHR 0x22 # '': '' @ encode_basestring_ascii (snd kv)
       @ '', '' @ CHR 0x22 # items_tail (kv' # r)"
proof -
  have "join '', '' (map dumps_item (kv # kv' # r))
          = dumps_item kv @ '', '' @ join '', '' (map dumps_item (kv' # r))"
    by simp
  also have "\<dots> = dumps_item kv @ '', '' @ CHR 0x22 # items_tail (kv' # r)"
    using join_items [of "kv' # r"] by simp
  finally show ?thesis
    by (simp add: items_tail_def dumps_item_quote)
qed

definition set_items :: "(string \<times> json) list \<Rightarrow> record_dict \<Rightarrow> (string \<times> json) list" where
  "set_items pairs r = foldl (\<lambda>p kv. dict_set (fst kv) (JStr (snd kv)) p) pairs r"

lemma JSONObject_items:
  "r \<noteq> [] \<Longrightarrow> JSONObject pairs (items_tail r @ tail) = object_end (set_items pairs r) tail"
proof (induction r arbitrary: pairs)
  case Nil
  then show ?case by simp
next
  case (Cons kv r)
  show ?case
  proof (cases r)
    case Nil
    then show ?thesis
      using JSONObject_item [of pairs "fst kv" "snd kv" tail]
      by (simp add: items_tail_single set_items_def)
  next
    case (Cons kv' r')
    have "JSONObject pairs (items_tail (kv # kv' # r') @ tail)
            = object_end (dict_set (fst kv) (JStr (snd kv)) pairs)
                ('', '' @ CHR 0x22 # items_tail (kv' # r') @ tail)"
      using JSONObject_item [of pairs "fst kv" "snd kv"
          "'', '' @ CHR 0x22 # items_tail (kv' # r') @ tail"]
      by (simp add: items_tail_Cons2)
    also have "\<dots> = JSONObject (dict_set (fst kv) (JStr (snd kv)) pairs)
                       (items_tail (kv' # r') @ tail)"
      by (simp add: object_end_def del: JSONObject.simps)
    also have "\<dots> = object_end (set_items (dict_set (fst kv) (JStr (snd kv)) pairs) (kv' # r')) tail"
      using Cons.IH [of "dict_set (fst kv) (JStr (snd kv)) pairs"] Cons by simp
    finally show ?thesis using Cons by (simp add: set_items_def)
  qed
qed

lemma dict_set_new: "k \<notin> fst ` set pairs \<Longrightarrow> dict_set k v pairs = pairs @ [(k, v)]"
  by (induction pairs) auto

lemma set_items_distinct:
  "distinct (map fst pairs @ map fst r) \<Longrightarrow>
   set_items pairs r = pairs @ map (\<lambda>kv. (fst kv, JStr (snd kv))) r"
proof (induction r arbitrary: pairs)
  case Nil
  then show ?case by (simp add: set_items_def)
next
  case (Cons kv r)
  from Cons.prems have n: "fst kv \<notin> fst ` set pairs" by auto
  have d: "dict_set (fst kv) (JStr (snd kv)) pairs = pairs @ [(fst kv, JStr (snd kv))]"
    using n by (rule dict_set_new)
  from Cons.prems have "distinct (map fst (pairs @ [(fst kv, JStr (snd kv))]) @ map fst r)"
    by auto
  from Cons.IH [OF this] d show ?case by (simp add: set_items_def)
qed

lemma scan_once_record:
  assumes "distinct (map fst r)"
  shows "scan_once (dumps_record r @ rest) = Some (value_of_record r, rest)"
proof (cases "r = []")
  case True
  then show ?thesis by (simp add: dumps_record_def value_of_record_def)
next
  case False
  have "scan_once (dumps_record r @ rest) = JSONObject [] (items_tail r @ CHR ''}'' # rest)"
    using False by (simp add: dumps_record_def join_items del: JSONObject.simps join.simps)
  also have "\<dots> = object_end (set_items [] r) (CHR ''}'' # rest)"
    using False by (rule JSONObject_items)
  also have "\<dots> = Some (JObj (set_items [] r), rest)"
    by (simp add: object_end_def)
  finally show ?thesis
    using set_items_distinct [of "[]" r] assms by (simp add: value_of_record_def)
qed

lemma dumps_record_brace: "dumps_record r = CHR ''{'' # join '', '' (map dumps_item r) @ ''}''"
  by (simp add: dumps_record_def)

lemma JSONArray_records:
  "rs \<noteq> [] \<Longrightarrow> valid_records rs \<Longrightarrow>
   JSONArray vals (join '', '' (map dumps_record rs) @ tail)
     = array_end (vals @ map value_of_record rs) tail"
proof (induction rs arbitrary: vals)
  case Nil
  then show ?case by simp
next
  case (Cons r rs)
  from Cons.prems have d: "distinct (map fst r)" and v: "valid_records rs"
    by (simp_all add: valid_records_def)
  show ?case
  proof (cases rs)
    case Nil
    have "JSONArray vals (dumps_record r @ tail) = array_end (vals @ [value_of_record r]) tail"
      by (rule JSONArray_element [OF scan_once_record [OF d]]) (simp add: dumps_record_def)
    with Nil show ?thesis by simp
  next
    case (Cons r' rs')
    let ?rest1 = "'', '' @ join '', '' (map dumps_record (r' # rs')) @ tail"
    have "JSONArray vals (dumps_record r @ ?rest1) = array_end (vals @ [value_of_record r]) ?rest1"
      by (rule JSONArray_element [OF scan_once_record [OF d]]) (simp add: dumps_record_def)
    also have "\<dots> = JSONArray (vals @ [value_of_record r])
                       (join '', '' (map dumps_record (r' # rs')) @ tail)"
      by (simp add: array_end_def dumps_record_brace del: JSONArray.simps)
    also have "\<dots> = array_end ((vals @ [value_of_record r]) @ map value_of_record (r' # rs')) tail"
      using Cons.IH [of "vals @ [value_of_record r]"] Cons v by simp
    finally show ?thesis using Cons by simp
  qed
qed

lemma json_dumps_bracket:
  "json_dumps rs = CHR ''['' # join '', '' (map dumps_record rs) @ '']''"
  by (simp add: json_dumps_def)

lemma join_records_brace:
  "rs \<noteq> [] \<Longrightarrow> \<exists>t. join '', '' (map dumps_record rs) = CHR ''{'' # t"
  by (cases rs) (simp_all add: dumps_record_brace)

theorem json_loads_json_dumps:
  assumes "valid_records rs"
  shows "json_loads (json_dumps rs) = Some (value_of_records rs)"
proof (cases "rs = []")
  case True
  then show ?thesis
    by (simp add: json_dumps_def json_loads_def value_of_records_def)
next
  case False
  then obtain t where t: "join '', '' (map dumps_record rs) = CHR ''{'' # t"
    using join_records_brace by blast
  have "scan_once (json_dumps rs) = JSONArray [] (join '', '' (map dumps_record rs) @ '']'')"
    by (simp add: json_dumps_bracket t del: JSONArray.simps)
  also have "\<dots> = array_end ([] @ map value_of_record rs) '']''"
    using False assms by (rule JSONArray_records)
  also have "\<dots> = Some (value_of_records rs, [])"
    by (simp add: array_end_def value_of_records_def)
  finally show ?thesis
    by (simp add: json_loads_def json_dumps_bracket)
qed

subsection \<open>A trailing comma\<close>

text \<open>
  The serialized list with one comma put before the closing bracket of the array or
  before the closing brace of the record at a given index.
\<close>

datatype comma_place = BeforeArrayEnd | BeforeRecordEnd nat

definition dumps_record_comma :: "record_dict \<Rightarrow> string" where
  "dumps_record_comma r = ''{'' @ join '', '' (map dumps_item r) @ '',}''"

fun with_trailing_comma :: "comma_place \<Rightarrow> record_dict list \<Rightarrow> string" where
  "with_trailing_comma BeforeArrayEnd rs = ''['' @ join '', '' (map dumps_record rs) @ '',]''"
| "with_trailing_comma (BeforeRecordEnd i) rs =
     ''['' @ join '', '' ((map dumps_record rs)[i := dumps_record_comma (rs ! i)]) @ '']''"

fun place_ok :: "comma_place \<Rightarrow> record_dict list \<Rightarrow> bool" where
  "place_ok BeforeArrayEnd rs = True"
| "place_ok (BeforeRecordEnd i) rs = (i < length rs)"

lemma join_mid:
  "join sep (xs @ y # zs)
     = concat (map (\<lambda>x. x @ sep) xs) @ y @ concat (map (\<lambda>z. sep @ z) zs)"
  by (induction xs) (simp, case_tac xs, simp_all)

lemma scan_once_bracket: "scan_once (CHR '']'' # cs) = None"
  by (simp add: match_number_def match_int_def is_digit_def)

lemma scan_once_comma: "scan_once (CHR '','' # cs) = None"
  by (simp add: match_number_def match_int_def is_digit_def)

lemma scan_once_record_comma: "scan_once (dumps_record_comma r @ rest) = None"
proof (cases "r = []")
  case True
  then show ?thesis by (simp add: dumps_record_comma_def)
next
  case False
  have "scan_once (dumps_record_comma r @ rest)
          = JSONObject [] (items_tail r @ '',}'' @ rest)"
    using False by (simp add: dumps_record_comma_def join_items del: JSONObject.simps join.simps)
  also have "\<dots> = object_end (set_items [] r) ('',}'' @ rest)"
    using False by (rule JSONObject_items)
  also have "\<dots> = None"
    by (simp add: object_end_def)
  finally show ?thesis .
qed

lemma JSONArray_bad_element:
  assumes "valid_records pre" and "\<And>rest. scan_once (bad @ rest) = None"
    and "\<exists>t. bad = CHR ''{'' # t"
  shows "JSONArray vals (join '', '' (map dumps_record pre @ bad # post) @ tail) = None"
  using assms(1)
proof (induction pre arbitrary: vals)
  case Nil
  obtain X where X: "join '', '' (map dumps_record [] @ bad # post) @ tail = bad @ X"
    by simp
  show ?case by (simp only: X JSONArray_no_element [OF assms(2)])
next
  case (Cons r pre)
  from Cons.prems have d: "distinct (map fst r)" and v: "valid_records pre"
    by (simp_all add: valid_records_def)
  let ?next = "join '', '' (map dumps_record pre @ bad # post) @ tail"
  have b: "\<exists>t. ?next = CHR ''{'' # t"
    using assms(3) by (cases pre) (auto simp: dumps_record_brace)
  have j: "join '', '' (map dumps_record (r # pre) @ bad # post) @ tail
             = dumps_record r @ '', '' @ ?next"
    by (cases pre) simp_all
  have "JSONArray vals (dumps_record r @ '', '' @ ?next)
          = array_end (vals @ [value_of_record r]) ('', '' @ ?next)"
    by (rule JSONArray_element [OF scan_once_record [OF d]]) (simp add: dumps_record_def)
  also have "\<dots> = JSONArray (vals @ [value_of_record r]) ?next"
    using b by (auto simp: array_end_def simp del: JSONArray.simps join.simps)
  also have "\<dots> = None"
    using Cons.IH [OF v] .
  finally show ?case by (simp only: j)
qed

lemma json_loads_trailing_comma:
  assumes "valid_records rs" and "place_ok place rs"
  shows "json_loads (with_trailing_comma place rs) = None"
proof (cases place)
  case BeforeArrayEnd
  show ?thesis
  proof (cases "rs = []")
    case True
    with BeforeArrayEnd show ?thesis
      by (simp add: json_loads_def match_number_def match_int_def is_digit_def)
  next
    case False
    then obtain t where t: "join '', '' (map dumps_record rs) = CHR ''{'' # t"
      using join_records_brace by blast
    have "scan_once (with_trailing_comma place rs)
            = JSONArray [] (join '', '' (map dumps_record rs) @ '',]'')"
      using BeforeArrayEnd by (simp add: t del: JSONArray.simps join.simps)
    also have "\<dots> = array_end ([] @ map value_of_record rs) '',]''"
      using False assms(1) by (rule JSONArray_records)
    also have "\<dots> = None"
      by (simp add: array_end_def JSONArray_no_element scan_once_bracket
          del: JSONArray.simps scan_once.simps)
    finally show ?thesis
      using BeforeArrayEnd by (simp add: json_loads_def del: scan_once.simps join.simps)
  qed
next
  case (BeforeRecordEnd i)
  with assms(2) have i: "i < length rs" by simp
  let ?pre = "take i rs" and ?post = "map dumps_record (drop (Suc i) rs)"
  let ?bad = "dumps_record_comma (rs ! i)"
  have u: "(map dumps_record rs)[i := ?bad] = map dumps_record ?pre @ ?bad # ?post"
    using i by (simp add: upd_conv_take_nth_drop take_map drop_map)
  have v: "valid_records ?pre"
    using assms(1) by (auto simp: valid_records_def list_all_iff dest: in_set_takeD)
  have "JSONArray [] (join '', '' (map dumps_record ?pre @ ?bad # ?post) @ '']'') = None"
  proof (rule JSONArray_bad_element [OF v])
    show "\<And>rest. scan_once (?bad @ rest) = None"
      by (rule scan_once_record_comma)
    show "\<exists>t. ?bad = CHR ''{'' # t"
      by (simp add: dumps_record_comma_def)
  qed
  moreover have "\<exists>t. join '', '' (map dumps_record ?pre @ ?bad # ?post) = CHR ''{'' # t"
    by (cases "take i rs") (auto simp: dumps_record_brace dumps_record_comma_def)
  ultimately have "scan_once (with_trailing_comma place rs) = None"
    using BeforeRecordEnd u by (auto simp del: JSONArray.simps join.simps)
  then show ?thesis by (simp add: json_loads_def BeforeRecordEnd del: scan_once.simps)
qed

subsection \<open>The comma repair\<close>

lemma remove_trailing_commas_other:
  "c \<noteq> CHR '','' \<Longrightarrow> remove_trailing_commas (c # cs) = c # remove_trailing_commas cs"
  by simp

definition closes :: "string \<Rightarrow> bool" where
  "closes cs \<longleftrightarrow>
     (case dropWhile is_space cs of [] \<Rightarrow> False | b # rest \<Rightarrow> b = CHR ''}'' \<or> b = CHR '']'')"

lemma remove_trailing_commas_comma:
  "remove_trailing_commas (CHR '','' # cs)
     = (if closes cs
        then hd (dropWhile is_space cs) # remove_trailing_commas (tl (dropWhile is_space cs))
        else CHR '','' # remove_trailing_commas cs)"
  by (cases "dropWhile is_space cs") (simp_all add: closes_def del: dropWhile_eq_Nil_conv)

lemma not_space_bracket: "b = CHR ''}'' \<or> b = CHR '']'' \<Longrightarrow> \<not> is_space b"
  by (auto simp: is_space_def)

lemma not_space_comma: "\<not> is_space (CHR '','')"
  by (simp add: is_space_def)

lemma closes_inject:
  assumes "b = CHR ''}'' \<or> b = CHR '']''" and "\<not> closes (A @ b # B)"
  shows "\<not> closes (A @ CHR '','' # b # B)"
proof (cases "\<forall>x \<in> set A. is_space x")
  case True
  then show ?thesis
    by (simp add: closes_def dropWhile_append not_space_comma)
next
  case False
  then obtain x where x: "x \<in> set A" "\<not> is_space x" by blast
  have dw: "dropWhile is_space (A @ X) = dropWhile is_space A @ X" for X
    using x by (rule dropWhile_append1)
  from x have "dropWhile is_space A \<noteq> []" by auto
  then obtain d ds where "dropWhile is_space A = d # ds"
    by (cases "dropWhile is_space A") auto
  with assms(2) show ?thesis by (simp add: closes_def dw)
qed

lemma remove_trailing_commas_inject:
  assumes "b = CHR ''}'' \<or> b = CHR '']''"
  shows "remove_trailing_commas (A @ b # B) = A @ b # B \<Longrightarrow>
         remove_trailing_commas (A @ CHR '','' # b # B) = A @ b # B"
proof (induction A)
  case Nil
  from assms have nc: "b \<noteq> CHR '',''" by auto
  from Nil nc have "remove_trailing_commas B = B" by simp
  moreover have "closes (b # B)"
    using assms by (simp add: closes_def not_space_bracket)
  ultimately show ?case
    using assms by (simp add: remove_trailing_commas_comma not_space_bracket
        del: remove_trailing_commas.simps)
next
  case (Cons a A)
  show ?case
  proof (cases "a = CHR '',''")
    case False
    with Cons.prems have "remove_trailing_commas (A @ b # B) = A @ b # B" by simp
    from Cons.IH [OF this] False show ?thesis by simp
  next
    case True
    have nc: "\<not> closes (A @ b # B)"
    proof
      assume c: "closes (A @ b # B)"
      then have "hd (dropWhile is_space (A @ b # B)) \<noteq> CHR '',''"
        by (auto simp: closes_def split: list.splits)
      moreover from Cons.prems True c have
        "hd (dropWhile is_space (A @ b # B)) # remove_trailing_commas (tl (dropWhile is_space (A @ b # B)))
           = CHR '','' # A @ b # B"
        by (simp add: remove_trailing_commas_comma del: remove_trailing_commas.simps)
      ultimately show False by simp
    qed
    with Cons.prems True have "remove_trailing_commas (A @ b # B) = A @ b # B"
      by (simp add: remove_trailing_commas_comma del: remove_trailing_commas.simps)
    from Cons.IH [OF this] closes_inject [OF assms nc] True show ?thesis
      by (simp add: remove_trailing_commas_comma del: remove_trailing_commas.simps)
  qed
qed

lemma join_update:
  assumes "i < length xs"
  shows "\<exists>P Q. \<forall>y. join sep (xs[i := y]) = P @ y @ Q"
proof -
  have "join sep (xs[i := y])
          = concat (map (\<lambda>x. x @ sep) (take i xs)) @ y
            @ concat (map (\<lambda>z. sep @ z) (drop (Suc i) xs))" for y
    using assms by (simp only: upd_conv_take_nth_drop join_mid)
  then show ?thesis by blast
qed

lemma trailing_comma_decomposition:
  assumes "place_ok place rs"
  shows "\<exists>A b B. (b = CHR ''}'' \<or> b = CHR '']'') \<and> json_dumps rs = A @ b # B
           \<and> with_trailing_comma place rs = A @ CHR '','' # b # B"
proof (cases place)
  case BeforeArrayEnd
  have "json_dumps rs = (CHR ''['' # join '', '' (map dumps_record rs)) @ CHR '']'' # []"
    by (simp add: json_dumps_def)
  moreover have "with_trailing_comma place rs
      = (CHR ''['' # join '', '' (map dumps_record rs)) @ CHR '','' # CHR '']'' # []"
    using BeforeArrayEnd by simp
  ultimately show ?thesis by blast
next
  case (BeforeRecordEnd i)
  with assms have i: "i < length (map dumps_record rs)" by simp
  obtain P Q where pq: "\<And>y. join '', '' ((map dumps_record rs)[i := y]) = P @ y @ Q"
    using join_update [OF i] by blast
  let ?items = "join '', '' (map dumps_item (rs ! i))"
  have "(map dumps_record rs)[i := dumps_record (rs ! i)] = map dumps_record rs"
    using i by (simp add: list_update_same_conv)
  then have "join '', '' (map dumps_record rs) = P @ dumps_record (rs ! i) @ Q"
    using pq [of "dumps_record (rs ! i)"] by simp
  then have "json_dumps rs = (CHR ''['' # P @ CHR ''{'' # ?items) @ CHR ''}'' # (Q @ '']'')"
    by (simp add: json_dumps_def dumps_record_def del: join.simps)
  moreover have "with_trailing_comma place rs
      = (CHR ''['' # P @ CHR ''{'' # ?items) @ CHR '','' # CHR ''}'' # (Q @ '']'')"
    using BeforeRecordEnd pq [of "dumps_record_comma (rs ! i)"]
    by (simp add: dumps_record_comma_def del: join.simps)
  ultimately show ?thesis by blast
qed

lemma find_last_complete_json_whole:
  assumes "json_loads d = Some v"
  shows "find_last_complete_json d = Some d"
proof (cases d)
  case Nil
  with assms show ?thesis by (simp add: json_loads_def)
next
  case (Cons c cs)
  then have "length d = Suc (length cs)" by simp
  moreover have "take (Suc (length cs)) d = d" using Cons by simp
  ultimately show ?thesis
    using assms by (simp add: find_last_complete_json_def del: take_Suc_Cons)
qed

lemma strategy2_repaired:
  assumes "json_loads (remove_trailing_commas content) = Some v"
  shows "strategy2 content = Some v"
  using assms find_last_complete_json_whole [OF assms]
  by (simp add: strategy2_def Let_def)

lemma recovery_direct:
  "valid_records rs \<Longrightarrow> parse_json_with_recovery (json_dumps rs) = Inr (value_of_records rs)"
  by (simp add: parse_json_with_recovery_def strategy1_def json_loads_json_dumps)

lemma recovery_trailing_comma:
  assumes "valid_records rs" and "place_ok place rs"
    and "remove_trailing_commas (json_dumps rs) = json_dumps rs"
  shows "parse_json_with_recovery (with_trailing_comma place rs) = Inr (value_of_records rs)"
proof -
  obtain A b B where b: "b = CHR ''}'' \<or> b = CHR '']''" and d: "json_dumps rs = A @ b # B"
    and w: "with_trailing_comma place rs = A @ CHR '','' # b # B"
    using trailing_comma_decomposition [OF assms(2)] by blast
  have "remove_trailing_commas (with_trailing_comma place rs) = json_dumps rs"
    using remove_trailing_commas_inject [OF b, of A B] assms(3) d w by simp
  then have "strategy2 (with_trailing_comma place rs) = Some (value_of_records rs)"
    using json_loads_json_dumps [OF assms(1)] by (simp add: strategy2_repaired)
  moreover have "strategy1 (with_trailing_comma place rs) = None"
    using json_loads_trailing_comma [OF assms(1,2)] by (simp add: strategy1_def)
  ultimately show ?thesis by (simp add: parse_json_with_recovery_def)
qed

subsection \<open>A fenced code block\<close>

text \<open>
  The reply that holds a text in a fenced code block, with a language tag or without.
\<close>

definition fenced :: "string \<Rightarrow> string \<Rightarrow> string" where
  "fenced tag t = ''```'' @ tag @ [CHR 0x0A] @ t @ [CHR 0x0A] @ ''```''"

lemma startswith_fence_newline:
  "startswith (t @ CHR 0x0A # ys) ''```'' \<Longrightarrow> startswith t ''```''"
proof (cases t)
  case Nil
  then show "startswith (t @ CHR 0x0A # ys) ''```'' \<Longrightarrow> startswith t ''```''" by simp
next
  case t1: (Cons a t1)
  show "startswith (t @ CHR 0x0A # ys) ''```'' \<Longrightarrow> startswith t ''```''"
  proof (cases t1)
    case Nil
    with t1 show "startswith (t @ CHR 0x0A # ys) ''```'' \<Longrightarrow> startswith t ''```''" by simp
  next
    case t2: (Cons b t2)
    show "startswith (t @ CHR 0x0A # ys) ''```'' \<Longrightarrow> startswith t ''```''"
      using t1 t2 by (cases t2) simp_all
  qed
qed

lemma startswith_prefix: "startswith s (p @ q) \<Longrightarrow> startswith s p"
  by (induction s p rule: startswith.induct) auto

lemma before_sep_fence:
  "\<not> contains t ''```'' \<Longrightarrow> before_sep ''```'' (t @ CHR 0x0A # ''```'' @ ys) = t @ [CHR 0x0A]"
proof (induction t)
  case Nil
  show ?case by simp
next
  case (Cons c t)
  from Cons.prems have n: "\<not> startswith (c # t) ''```''" and r: "\<not> contains t ''```''"
    by simp_all
  from n have "\<not> startswith ((c # t) @ CHR 0x0A # ''```'' @ ys) ''```''"
    using startswith_fence_newline by blast
  with Cons.IH [OF r] show ?case by simp
qed

lemma before_sep_absent: "\<not> contains xs sep \<Longrightarrow> before_sep sep xs = xs"
  by (induction xs) auto

lemma no_tagged_fence:
  "\<not> contains t ''```'' \<Longrightarrow> \<not> contains (t @ CHR 0x0A # ''```'') ''```json''"
proof (induction t)
  case Nil
  show ?case by simp
next
  case (Cons c t)
  from Cons.prems have n: "\<not> startswith (c # t) ''```''" and r: "\<not> contains t ''```''"
    by simp_all
  have "\<not> startswith ((c # t) @ CHR 0x0A # ''```'') ''```json''"
  proof
    assume "startswith ((c # t) @ CHR 0x0A # ''```'') ''```json''"
    then have "startswith ((c # t) @ CHR 0x0A # ''```'') (''```'' @ ''json'')" by simp
    then have "startswith ((c # t) @ CHR 0x0A # ''```'') ''```''"
      by (rule startswith_prefix)
    with n show False using startswith_fence_newline by blast
  qed
  with Cons.IH [OF r] show ?case by simp
qed

lemma no_fence_newline:
  "\<not> contains t ''```'' \<Longrightarrow> \<not> contains (t @ [CHR 0x0A]) ''```''"
proof (induction t)
  case Nil
  show ?case by simp
next
  case (Cons c t)
  from Cons.prems have n: "\<not> startswith (c # t) ''```''" and r: "\<not> contains t ''```''"
    by simp_all
  from n have "\<not> startswith ((c # t) @ CHR 0x0A # []) ''```''"
    using startswith_fence_newline by blast
  with Cons.IH [OF r] show ?case by simp
qed

lemma strip_id:
  assumes "s \<noteq> []" and "\<not> is_space (hd s)" and "\<not> is_space (last s)"
  shows "strip s = s"
proof -
  have "dropWhile is_space s = s"
    using assms(1,2) by (cases s) simp_all
  moreover have "dropWhile is_space (rev s) = rev s"
    using assms(1,3) by (cases "rev s") (simp_all add: hd_rev [symmetric])
  ultimately show ?thesis by (simp add: strip_def)
qed

lemma strip_newlines:
  assumes "t \<noteq> []" and "\<not> is_space (hd t)" and "\<not> is_space (last t)"
  shows "strip (CHR 0x0A # t @ [CHR 0x0A]) = t"
proof -
  have sp: "is_space (CHR 0x0A)" by (simp add: is_space_def)
  have a: "dropWhile is_space (CHR 0x0A # t @ [CHR 0x0A]) = t @ [CHR 0x0A]"
    using assms(1,2) sp by (cases t) simp_all
  have "dropWhile is_space (rev t) = rev t"
    using assms(1,3) by (cases "rev t") (simp_all add: hd_rev [symmetric])
  then have "dropWhile is_space (rev (t @ [CHR 0x0A])) = rev t"
    using sp by simp
  with a show ?thesis by (simp add: strip_def)
qed

lemma json_dumps_ends:
  "json_dumps rs \<noteq> []" "hd (json_dumps rs) = CHR ''[''" "last (json_dumps rs) = CHR '']''"
  by (simp_all add: json_dumps_def)

lemma clean_response_fenced:
  assumes "\<not> contains t ''```''" and "t \<noteq> []" and "\<not> is_space (hd t)" and "\<not> is_space (last t)"
    and "tag = ''json'' \<or> tag = []"
  shows "clean_response (fenced tag t) = t"
proof -
  have ns: "\<not> is_space (CHR 0x60)" by (simp add: is_space_def)
  have s: "strip (fenced tag t) = fenced tag t"
    by (rule strip_id) (simp_all add: fenced_def ns)
  have b: "before_sep ''```'' (t @ [CHR 0x0A, CHR 0x60, CHR 0x60, CHR 0x60]) = t @ [CHR 0x0A]"
    using before_sep_fence [OF assms(1), of "[]"] by simp
  have c: "before_sep ''```'' (t @ [CHR 0x0A]) = t @ [CHR 0x0A]"
    by (rule before_sep_absent [OF no_fence_newline [OF assms(1)]])
  have j: "before_sep ''```json'' (t @ [CHR 0x0A, CHR 0x60, CHR 0x60, CHR 0x60])
             = t @ [CHR 0x0A, CHR 0x60, CHR 0x60, CHR 0x60]"
    using before_sep_absent [OF no_tagged_fence [OF assms(1)]] by simp
  from assms(5) show ?thesis
  proof
    assume tag: "tag = ''json''"
    show ?thesis
      unfolding clean_response_def s Let_def
      using strip_newlines [OF assms(2,3,4)]
      by (simp add: fenced_def tag j b)
  next
    assume tag: "tag = []"
    show ?thesis
      unfolding clean_response_def s Let_def
      using strip_newlines [OF assms(2,3,4)]
      by (simp add: fenced_def tag b c)
  qed
qed

subsection \<open>An array in prose\<close>

lemma search_array_embedded:
  assumes "CHR ''['' \<notin> set pre" and "CHR '']'' \<notin> set post"
  shows "search_array (pre @ CHR ''['' # mid @ CHR '']'' # post) = Some (CHR ''['' # mid @ '']'')"
proof -
  have a: "dropWhile (\<lambda>c. c \<noteq> CHR ''['') (pre @ CHR ''['' # mid @ CHR '']'' # post)
             = CHR ''['' # mid @ CHR '']'' # post"
    using assms(1) by (simp add: dropWhile_append)
  have c: "dropWhile (\<lambda>c. c \<noteq> CHR '']'') (rev post @ CHR '']'' # rev mid) = CHR '']'' # rev mid"
    using assms(2) by (simp add: dropWhile_append)
  have r: "rev (mid @ CHR '']'' # post) = rev post @ CHR '']'' # rev mid"
    by simp
  have b: "rev (dropWhile (\<lambda>c. c \<noteq> CHR '']'') (rev (mid @ CHR '']'' # post)))
             = mid @ '']''"
    by (subst r, subst c) simp
  show ?thesis
    unfolding search_array_def a by (simp add: c)
qed

lemma recovery_embedded:
  assumes "valid_records rs" and "CHR ''['' \<notin> set pre" and "CHR '']'' \<notin> set post"
    and "strategy1 (pre @ json_dumps rs @ post) = None"
    and "strategy2 (pre @ json_dumps rs @ post) = None"
  shows "parse_json_with_recovery (pre @ json_dumps rs @ post) = Inr (value_of_records rs)"
proof -
  let ?mid = "join '', '' (map dumps_record rs)"
  have t: "pre @ json_dumps rs @ post = pre @ CHR ''['' # ?mid @ CHR '']'' # post"
    by (simp add: json_dumps_def)
  have "search_array (pre @ json_dumps rs @ post) = Some (json_dumps rs)"
    unfolding t using search_array_embedded [OF assms(2,3), of ?mid]
    by (simp add: json_dumps_def)
  then have "strategy3 (pre @ json_dumps rs @ post) = Some (value_of_records rs)"
    using json_loads_json_dumps [OF assms(1)] by (simp add: strategy3_def)
  with assms(4,5) show ?thesis by (simp add: parse_json_with_recovery_def)
qed

lemma recovery_fenced:
  assumes "valid_records rs" and "tag = ''json'' \<or> tag = []"
    and "\<not> contains (json_dumps rs) ''```''"
  shows "parse_json_with_recovery (clean_response (fenced tag (json_dumps rs)))
           = Inr (value_of_records rs)"
proof -
  have ns: "\<not> is_space (CHR ''['')" "\<not> is_space (CHR '']'')"
    by (simp_all add: is_space_def)
  have "clean_response (fenced tag (json_dumps rs)) = json_dumps rs"
    by (rule clean_response_fenced [OF assms(3) _ _ _ assms(2)])
       (simp_all add: json_dumps_ends ns)
  then show ?thesis using recovery_direct [OF assms(1)] by simp
qed

text \<open>
  C5, as amended. For every list of record dictionaries serialized to JSON, recovery
  gives back an equal list. With one comma put before the closing bracket of the array or
  the closing brace of a record, recovery still gives back the list, provided the comma
  repair leaves the serialization itself unchanged (no string in it holds a comma followed
  by blanks and a closing bracket or brace). For the serialization in a fenced code block,
  with the tag \<open>json\<close> or without a tag, the cleaning and the direct parse give back the
  list, provided no string in it holds a code fence. For the serialization between a text
  without an opening bracket and a text without a closing bracket, on which direct parse
  and comma repair fail, the array extraction gives back the list.
\<close>

theorem recovery_round_trip:
  assumes "valid_records rs"
  shows "parse_json_with_recovery (json_dumps rs) = Inr (value_of_records rs)
    \<and> (place_ok place rs \<and> remove_trailing_commas (json_dumps rs) = json_dumps rs
        \<longrightarrow> parse_json_with_recovery (with_trailing_comma place rs)
              = Inr (value_of_records rs))
    \<and> ((tag = ''json'' \<or> tag = []) \<and> \<not> contains (json_dumps rs) ''```''
        \<longrightarrow> parse_json_with_recovery (clean_response (fenced tag (json_dumps rs)))
              = Inr (value_of_records rs))
    \<and> (CHR ''['' \<notin> set pre \<and> CHR '']'' \<notin> set post
         \<and> strategy1 (pre @ json_dumps rs @ post) = None
         \<and> strategy2 (pre @ json_dumps rs @ post) = None
        \<longrightarrow> parse_json_with_recovery (pre @ json_dumps rs @ post)
              = Inr (value_of_records rs))"
  using recovery_direct [OF assms] recovery_trailing_comma [OF assms]
    recovery_fenced [OF assms] recovery_embedded [OF assms]
  by blast

definition two_records :: "record_dict list" where
  "two_records = [[(''software'', ''A''), (''vendor'', ''B'')], [(''software'', ''C'')]]"

lemma two_records_facts:
  "valid_records two_records"
  "place_ok (BeforeRecordEnd 0) two_records"
  "remove_trailing_commas (json_dumps two_records) = json_dumps two_records"
  "\<not> contains (json_dumps two_records) ''```''"
  "strategy1 (''Here is the data: '' @ json_dumps two_records @ '' Done.'') = None"
  "strategy2 (''Here is the data: '' @ json_dumps two_records @ '' Done.'') = None"
  by code_simp+

theorem recovery_round_trip_witness:
  \<open>valid_records two_records
   \<and> json_dumps two_records = ''[{"software": "A", "vendor": "B"}, {"software": "C"}]''
   \<and> with_trailing_comma (BeforeRecordEnd 0) two_records
       = ''[{"software": "A", "vendor": "B",}, {"software": "C"}]''
   \<and> parse_json_with_recovery (json_dumps two_records) = Inr (value_of_records two_records)
   \<and> parse_json_with_recovery (with_trailing_comma (BeforeRecordEnd 0) two_records)
       = Inr (value_of_records two_records)
   \<and> parse_json_with_recovery (clean_response (fenced ''json'' (json_dumps two_records)))
       = Inr (value_of_records two_records)
   \<and> parse_json_with_recovery (''Here is the data: '' @ json_dumps two_records @ '' Done.'')
       = Inr (value_of_records two_records)\<close>
proof -
  have d: \<open>json_dumps two_records = ''[{"software": "A", "vendor": "B"}, {"software": "C"}]''\<close>
    \<open>with_trailing_comma (BeforeRecordEnd 0) two_records
       = ''[{"software": "A", "vendor": "B",}, {"software": "C"}]''\<close>
    by code_simp+
  have b: "CHR ''['' \<notin> set ''Here is the data: ''" "CHR '']'' \<notin> set '' Done.''"
    by simp_all
  show ?thesis
    using recovery_round_trip [OF two_records_facts(1), of "BeforeRecordEnd 0" "''json''"
        "''Here is the data: ''" "'' Done.''"]
      two_records_facts b
    by (simp only: d simp_thms)
qed

text \<open>
  C5, as stated, fails: a note that ends in \<open>,]\<close> loses its comma when a trailing comma
  is repaired; a name that holds a code fence cuts the fenced reply short; a bracket in
  the prose before the array misleads the array extraction, and a quote and a number in
  it the comma repair.
\<close>

theorem recovery_round_trip_counterexample:
  \<open>valid_records [[(''misc_notes'', ''see [1, 2,]'')]]
   \<and> parse_json_with_recovery
        (with_trailing_comma BeforeArrayEnd [[(''misc_notes'', ''see [1, 2,]'')]])
       = Inr (value_of_records [[(''misc_notes'', ''see [1, 2]'')]])
   \<and> parse_json_with_recovery
        (clean_response (fenced ''json'' (json_dumps [[(''software'', ''a```b'')]])))
       = Inl JSONDecodeError
   \<and> parse_json_with_recovery
        (''Note [1]: '' @ json_dumps [[(''software'', []), (''vendor'', ''V'')]])
       = Inl JSONDecodeError
   \<and> parse_json_with_recovery (''7" screens: '' @ json_dumps [[(''software'', ''A'')]])
       = Inr (JNum ''7'')\<close>
  by code_simp

section \<open>Resuming a batch\<close>

text \<open>
  The analyzer at the moment the district loop of a run from scratch has finished its
  first \<open>n\<close> districts (the final save has not happened), and the analyzer that a later
  run starts with on the files left behind.
\<close>

definition interrupted_after :: "env \<Rightarrow> entry \<Rightarrow> nat \<Rightarrow> analyzer" where
  "interrupted_after e base_dir n =
     snd (process_districts e [entry_name base_dir] None
            (take n (sort_key entry_name (district_folders_of base_dir))) []
            (new_analyzer None None))"

definition resume :: "analyzer \<Rightarrow> analyzer" where
  "resume st = new_analyzer (processed_pdfs_file st) (main_csv_file st)"

definition table_rows :: "analyzer \<Rightarrow> SoftwareRecord list" where
  "table_rows st = (case main_csv_file st of None \<Rightarrow> [] | Some rows \<Rightarrow> rows)"

text \<open>
  The loop over a list of districts is the loop over its first part followed by the loop
  over the rest, so the loop over the first \<open>n\<close> districts is the state of the whole loop
  after \<open>n\<close> rounds.
\<close>

lemma process_districts_append:
  "process_districts e b l (xs @ ys) acc st =
     (case process_districts e b l xs acc st of
        (Inl x, st1) \<Rightarrow> (Inl x, st1)
      | (Inr acc1, st1) \<Rightarrow> process_districts e b l ys acc1 st1)"
  by (induction xs arbitrary: acc st) (auto simp: Let_def split: prod.splits sum.splits)

text \<open>
  Six districts, each with the round folder \<open>R1\<close> and one PDF of one page, on which the
  service finds one record.
\<close>

definition one_page_district :: "string \<Rightarrow> entry" where
  "one_page_district name =
     Dir name [Dir ''R1'' [File ''a.pdf'' (Some [Some (''png'', ''text'')])]]"

definition six_districts :: entry where
  "six_districts =
     Dir ''RA_tasks_2025''
       (map one_page_district [''D1'', ''D2'', ''D3'', ''D4'', ''D5'', ''D6''])"

definition one_record_env :: env where
  \<open>one_record_env =
     \<lparr>api_post = (\<lambda>req attempt. Content ''[{"software": "S"}]''),
      builtin_str = (\<lambda>v. ''<value>'')\<rparr>\<close>

definition uninterrupted_run :: analyzer where
  "uninterrupted_run =
     snd (process_all_districts one_record_env (new_analyzer None None) six_districts
            None None [])"

definition resumed_run :: analyzer where
  "resumed_run =
     snd (process_all_districts one_record_env
            (resume (interrupted_after one_record_env six_districts 5)) six_districts
            None None [])"

lemma uninterrupted_rows:
  "map district (table_rows uninterrupted_run)
     = map JStr [''D1'', ''D2'', ''D3'', ''D4'', ''D5'',
                 ''D1'', ''D2'', ''D3'', ''D4'', ''D5'', ''D6'']"
  by code_simp

lemma resumed_rows:
  "map district (table_rows resumed_run)
     = map JStr [''D1'', ''D2'', ''D3'', ''D4'', ''D5'', ''D6'']"
  by code_simp

lemma resumed_calls: "api_calls_made resumed_run = 1"
  by code_simp

lemma interrupted_tracker:
  "load_processed_pdfs (processed_pdfs_file (interrupted_after one_record_env six_districts 5))
     = {|''D1/1/a.pdf'', ''D2/1/a.pdf'', ''D3/1/a.pdf'', ''D4/1/a.pdf'', ''D5/1/a.pdf''|}"
  by code_simp

text \<open>
  C1. The main detailed table of a run that is interrupted behind the checkpoint of the
  fifth district and then started again on the files left behind differs, as a multiset
  of rows, from the table of the uninterrupted run: each checkpoint and the final save
  append all records collected so far, so the uninterrupted run writes the records of the
  first five districts twice. The later run itself skips the five PDFs of the tracker and
  calls the service once, for the sixth district.
\<close>

theorem resumed_table_differs:
  "map district (table_rows uninterrupted_run)
     = map JStr [''D1'', ''D2'', ''D3'', ''D4'', ''D5'',
                 ''D1'', ''D2'', ''D3'', ''D4'', ''D5'', ''D6'']
   \<and> map district (table_rows resumed_run)
     = map JStr [''D1'', ''D2'', ''D3'', ''D4'', ''D5'', ''D6'']
   \<and> api_calls_made resumed_run = 1
   \<and> mset (table_rows uninterrupted_run) \<noteq> mset (table_rows resumed_run)"
proof -
  have "length (map district (table_rows uninterrupted_run)) = 11"
    by (simp only: uninterrupted_rows) simp
  moreover have "length (map district (table_rows resumed_run)) = 6"
    by (simp only: resumed_rows) simp
  ultimately have "size (mset (table_rows uninterrupted_run))
      \<noteq> size (mset (table_rows resumed_run))"
    by simp
  then have "mset (table_rows uninterrupted_run) \<noteq> mset (table_rows resumed_run)"
    by metis
  with uninterrupted_rows resumed_rows resumed_calls show ?thesis by simp
qed

section \<open>Files of the same name in one round folder\<close>

text \<open>
  \<open>get_pdf_identifier\<close> is documented as creating a unique identifier for a PDF file,
  with the comment that the relative path is used for uniqueness; what it builds is
  district, round and the name of the file. The PDFs of a round folder are collected from
  all its subfolders, so two of them can have the same name and then the same identifier.
\<close>

subsection \<open>Two readable invoices\<close>

text \<open>
  The round folder \<open>R1\<close> of the district \<open>Lincoln\<close> with the subfolders \<open>2016\<close> and
  \<open>2017\<close>, each with a file \<open>invoice.pdf\<close>: one page in the first, two pages in the
  second.
\<close>

definition first_invoice :: pdf_file where
  "first_invoice =
     ([''RA_tasks_2025'', ''Lincoln'', ''R1'', ''2016'', ''invoice.pdf''],
      File ''invoice.pdf'' (Some [Some (''png 1'', ''Reading Plus'')]))"

definition second_invoice :: pdf_file where
  "second_invoice =
     ([''RA_tasks_2025'', ''Lincoln'', ''R1'', ''2017'', ''invoice.pdf''],
      File ''invoice.pdf'' (Some [Some (''png 2'', ''Lexia''), Some (''png 3'', ''Terms'')]))"

definition invoice_folder :: entry where
  "invoice_folder =
     Dir ''R1'' [Dir ''2016'' [snd first_invoice], Dir ''2017'' [snd second_invoice]]"

definition two_invoices :: entry where
  "two_invoices = Dir ''RA_tasks_2025'' [Dir ''Lincoln'' [invoice_folder]]"

definition two_invoices_run :: "(exn + unit) \<times> analyzer" where
  "two_invoices_run =
     process_all_districts lincoln_env (new_analyzer None None) two_invoices None None []"

text \<open>
  C2. The run over the two invoices ends without an exception. It finds both files,
  processes the first and adds the identifier \<open>Lincoln/1/invoice.pdf\<close>, which is the
  identifier of the second file as well: the identifier of the second invoice is in the
  processed set although none of its two pages has been attempted (the only page rendered
  and sent to the service is page 0 of the first file), and the call of \<open>process_pdf\<close> on
  it is skipped, so its pages are not attempted afterwards either.
\<close>

theorem same_name_marked_unattempted:
  "get_pdfs_sorted_by_page_count [''RA_tasks_2025'', ''Lincoln'', ''R1''] invoice_folder None
     = [first_invoice, second_invoice]
   \<and> fst two_invoices_run = Inr ()
   \<and> processed_pdfs (snd two_invoices_run) = {|''Lincoln/1/invoice.pdf''|}
   \<and> get_pdf_identifier (fst second_invoice) ''Lincoln'' ''1'' = ''Lincoln/1/invoice.pdf''
   \<and> is_pdf_already_processed (snd two_invoices_run) (fst second_invoice) ''Lincoln'' ''1''
   \<and> page_count second_invoice = 2
   \<and> attempts (trace (snd two_invoices_run))
       = [Extract (fst first_invoice) 0, ApiCall ''invoice.pdf'' 0 0]
   \<and> pdfs_processed (snd two_invoices_run) = 1
   \<and> pages_analyzed (snd two_invoices_run) = 1
   \<and> process_pdf lincoln_env (snd two_invoices_run) second_invoice ''Lincoln'' ''1''
       = (Inr [], snd two_invoices_run)"
  by code_simp

subsection \<open>An unreadable order and a readable one\<close>

text \<open>
  The round folder \<open>R1\<close> of the district \<open>Lincoln\<close> with the subfolders \<open>scans\<close> and
  \<open>signed\<close>, each with a file \<open>order.pdf\<close>: the first cannot be opened, the second has
  one page. The first run starts from nothing, the second run from the files that the
  first run has left.
\<close>

definition unreadable_order :: pdf_file where
  "unreadable_order =
     ([''RA_tasks_2025'', ''Lincoln'', ''R1'', ''scans'', ''order.pdf''], File ''order.pdf'' None)"

definition signed_order :: pdf_file where
  "signed_order =
     ([''RA_tasks_2025'', ''Lincoln'', ''R1'', ''signed'', ''order.pdf''],
      File ''order.pdf'' (Some [Some (''png 1'', ''Reading Plus'')]))"

definition order_folder :: entry where
  "order_folder =
     Dir ''R1'' [Dir ''scans'' [snd unreadable_order], Dir ''signed'' [snd signed_order]]"

definition two_orders :: entry where
  "two_orders = Dir ''RA_tasks_2025'' [Dir ''Lincoln'' [order_folder]]"

definition first_order_run :: "(exn + unit) \<times> analyzer" where
  "first_order_run =
     process_all_districts lincoln_env (new_analyzer None None) two_orders None None []"

definition second_order_run :: "(exn + unit) \<times> analyzer" where
  "second_order_run =
     process_all_districts lincoln_env (resume (snd first_order_run)) two_orders None None []"

text \<open>
  C10. The first run tries the file that cannot be opened, counts one error for it and
  does not mark it; then it processes the readable file of the same name and adds the
  identifier \<open>Lincoln/1/order.pdf\<close>, which both files share. From then on the file that
  cannot be opened counts as processed: the call of \<open>process_pdf\<close> on it returns the
  empty list without an error, and the second run, which finds the same two files, makes
  no attempt at any page and counts no error.
\<close>

theorem unopenable_skipped_after_namesake:
  "get_pdfs_sorted_by_page_count [''RA_tasks_2025'', ''Lincoln'', ''R1''] order_folder None
     = [unreadable_order, signed_order]
   \<and> fitz_open (snd unreadable_order) = None
   \<and> fst first_order_run = Inr ()
   \<and> errors_encountered (snd first_order_run) = 1
   \<and> processed_pdfs (snd first_order_run) = {|''Lincoln/1/order.pdf''|}
   \<and> processed_pdfs (resume (snd first_order_run)) = {|''Lincoln/1/order.pdf''|}
   \<and> get_pdf_identifier (fst unreadable_order) ''Lincoln'' ''1'' = ''Lincoln/1/order.pdf''
   \<and> is_pdf_already_processed (resume (snd first_order_run)) (fst unreadable_order)
        ''Lincoln'' ''1''
   \<and> process_pdf lincoln_env (resume (snd first_order_run)) unreadable_order ''Lincoln'' ''1''
       = (Inr [], resume (snd first_order_run))
   \<and> fst second_order_run = Inr ()
   \<and> errors_encountered (snd second_order_run) = 0
   \<and> api_calls_made (snd second_order_run) = 0
   \<and> attempts (trace (snd second_order_run)) = []"
  by code_simp

end
